theory Spec2Isabelle
  imports Complex_Main
begin

section \<open>Data model\<close>

text \<open>
  The documents of the \<open>Alert\<close> collection (models/Alert.js). A JavaScript number
  is modelled as the real value of the double it is; dates are milliseconds since the
  epoch, document ids are naturals.
  The fields \<open>alertType\<close>, \<open>condition\<close> and \<open>priority\<close> stay strings, as the
  evaluation code switches on their text and has branches for unknown values.
\<close>

record alert =
  aid :: nat
  userId :: nat
  symbol :: string
  alertType :: string
  condition :: string
  targetValue :: real
  currentValue :: real
  message :: string
  isActive :: bool
  isTriggered :: bool
  triggeredAt :: "int option"
  notificationSent :: bool
  priority :: string
  expiresAt :: "int option"

text \<open>
  The fields of a \<open>MarketData\<close> document that the alert engine and the market
  data service read.
\<close>

record market_data =
  md_symbol :: string
  md_price :: real
  md_change :: real
  md_changePercent :: real
  md_volume :: real
  md_lastUpdated :: int
  md_source :: string
  md_isActive :: bool

section \<open>Alert evaluation in \<open>AlertService.checkAlerts\<close>\<close>

text \<open>
  The first \<open>switch\<close> of the loop body: the observed value by alert type. \<open>None\<close> is
  the \<open>default: continue\<close> branch.
\<close>

definition checkAlerts_currentValue :: "string \<Rightarrow> market_data \<Rightarrow> real option" where
  "checkAlerts_currentValue ty d =
     (if ty = ''price'' then Some (md_price d)
      else if ty = ''volume'' then Some (md_volume d)
      else if ty = ''change_percent'' then Some (md_changePercent d)
      else None)"

subsection \<open>Double precision\<close>

text \<open>
  Comparisons of doubles are exact, and so is \<open>Math.abs\<close>. The subtraction of the
  \<open>equals\<close> case is not: its result is the exact difference rounded to the nearest
  double, ties to the even mantissa, and the literal \<open>0.01\<close> is the double nearest to
  one hundredth. \<open>roundDouble\<close> rounds a real to 53 significant bits. The exponent is
  not bounded: a difference of two doubles too small for a normal double is exact, and
  one that overflows is not below \<open>0.01\<close> either way. \<open>NaN\<close> and the infinities
  are not modelled.
\<close>

fun ilog2 :: "nat \<Rightarrow> nat" where
  "ilog2 n = (if n < 2 then 0 else Suc (ilog2 (n div 2)))"

declare ilog2.simps [simp del]

text \<open>The exponent \<open>e\<close> of a real other than zero: \<open>2 ^ e \<le> \<bar>x\<bar> < 2 ^ (e + 1)\<close>.\<close>

definition dexp :: "real \<Rightarrow> int" where
  "dexp x =
     (if \<bar>x\<bar> \<ge> 1 then int (ilog2 (nat \<lfloor>\<bar>x\<bar>\<rfloor>))
      else if nat \<lceil>1 / \<bar>x\<bar>\<rceil> \<le> 1 then 0
      else - int (Suc (ilog2 (nat \<lceil>1 / \<bar>x\<bar>\<rceil> - 1))))"

definition roundHalfEven :: "real \<Rightarrow> int" where
  "roundHalfEven q =
     (let r = \<lfloor>q\<rfloor> in
      if q - of_int r < 1 / 2 then r
      else if q - of_int r > 1 / 2 then r + 1
      else if even r then r else r + 1)"

definition pow2 :: "int \<Rightarrow> real" where
  "pow2 e = (if e \<ge> 0 then 2 ^ nat e else 1 / 2 ^ nat (- e))"

definition roundDouble :: "real \<Rightarrow> real" where
  "roundDouble x =
     (if x = 0 then 0
      else of_int (roundHalfEven (x / pow2 (dexp x - 52))) * pow2 (dexp x - 52))"

text \<open>
  What \<open>roundDouble\<close> returns is a double nearest to its argument: a mantissa of 53
  bits (or the next power of two) times the unit of the argument's binade, at most
  half a unit away.
\<close>

lemma ilog2_bounds: "n > 0 \<Longrightarrow> 2 ^ ilog2 n \<le> n \<and> n < 2 * 2 ^ ilog2 n"
proof (induction n rule: ilog2.induct)
  case (1 n)
  show ?case
  proof (cases "n < 2")
    case True
    then have "n = 1" using 1(2) by simp
    then show ?thesis by (simp add: ilog2.simps)
  next
    case False
    then have "n div 2 > 0" by simp
    then have ih: "2 ^ ilog2 (n div 2) \<le> n div 2" "n div 2 < 2 * 2 ^ ilog2 (n div 2)"
      using 1(1) False by simp_all
    have "ilog2 n = Suc (ilog2 (n div 2))" using False by (subst ilog2.simps) simp
    then show ?thesis using ih by auto
  qed
qed

lemma pow2_powi: "pow2 e = 2 powi e"
  by (simp add: pow2_def power_int_def power_one_over inverse_eq_divide)

lemma pow2_pos: "pow2 e > 0"
  by (simp add: pow2_powi)

lemma pow2_add: "pow2 (a + b) = pow2 a * pow2 b"
  by (simp add: pow2_powi power_int_add)

lemma dexp_bounds:
  assumes "x \<noteq> 0"
  shows "pow2 (dexp x) \<le> \<bar>x\<bar> \<and> \<bar>x\<bar> < pow2 (dexp x + 1)"
proof (cases "\<bar>x\<bar> \<ge> 1")
  case True
  let ?n = "nat \<lfloor>\<bar>x\<bar>\<rfloor>"
  have n: "?n > 0" using True by simp
  have e: "dexp x = int (ilog2 ?n)" using True by (simp add: dexp_def)
  have n1: "real ?n \<le> \<bar>x\<bar>" "\<bar>x\<bar> < real ?n + 1" using True by linarith+
  from ilog2_bounds[OF n] have b: "2 ^ ilog2 ?n \<le> ?n" "?n + 1 \<le> 2 * 2 ^ ilog2 ?n" by simp_all
  have "(2::real) ^ ilog2 ?n \<le> real ?n" using b(1) by (metis of_nat_le_iff of_nat_numeral of_nat_power)
  moreover have "real ?n + 1 \<le> 2 * 2 ^ ilog2 ?n"
    using b(2) by (metis (mono_tags, opaque_lifting) of_nat_1 of_nat_add of_nat_le_iff of_nat_mult of_nat_numeral of_nat_power)
  moreover have "pow2 (int (ilog2 ?n)) = 2 ^ ilog2 ?n"
    "pow2 (int (ilog2 ?n) + 1) = 2 * 2 ^ ilog2 ?n"
    by (simp_all add: pow2_def nat_add_distrib)
  ultimately show ?thesis using n1 unfolding e by linarith
next
  case False
  define y where "y = 1 / \<bar>x\<bar>"
  define n where "n = nat \<lceil>y\<rceil>"
  define k where "k = ilog2 (n - 1)"
  have xpos: "\<bar>x\<bar> > 0" using assms by simp
  have y: "y > 1" using False xpos by (simp add: y_def)
  have n1: "real n - 1 < y" "y \<le> real n" unfolding n_def using y by linarith+
  have n2: "n \<ge> 2" using n1(2) y by linarith
  have nn: "\<not> nat \<lceil>1 / \<bar>x\<bar>\<rceil> \<le> 1" using n2 unfolding n_def y_def by linarith
  have "dexp x = - int (Suc (ilog2 (nat \<lceil>1 / \<bar>x\<bar>\<rceil> - 1)))"
    by (simp only: dexp_def False nn if_False)
  then have e: "dexp x = - int (Suc k)" by (simp add: k_def n_def y_def)
  have "n - 1 > 0" using n2 by linarith
  from ilog2_bounds[OF this] have b: "2 ^ k \<le> n - 1" "n - 1 < 2 * 2 ^ k"
    unfolding k_def by simp_all
  have "real (2 ^ k) \<le> real (n - 1)" using b(1) by (simp only: of_nat_le_iff)
  then have r1: "(2::real) ^ k \<le> real n - 1" using n2 by simp
  have "n \<le> 2 * 2 ^ k" using b(2) by linarith
  then have "real n \<le> real (2 * 2 ^ k)" by (simp only: of_nat_le_iff)
  then have r2: "real n \<le> 2 * 2 ^ k" by simp
  have lo: "2 ^ k < y" using r1 n1(1) by linarith
  have hi: "y \<le> 2 ^ Suc k" using r2 n1(2) by simp
  have "1 / 2 ^ Suc k \<le> \<bar>x\<bar>"
    using hi xpos unfolding y_def by (simp add: field_simps)
  moreover have "\<bar>x\<bar> < 1 / 2 ^ k"
    using lo xpos unfolding y_def by (simp add: field_simps)
  moreover have "pow2 (- int (Suc k)) = 1 / 2 ^ Suc k" "pow2 (- int (Suc k) + 1) = 1 / 2 ^ k"
    by (simp_all add: pow2_def nat_add_distrib)
  ultimately show ?thesis unfolding e by simp
qed

lemma roundHalfEven_near: "\<bar>of_int (roundHalfEven q) - q\<bar> \<le> 1 / 2"
  unfolding roundHalfEven_def Let_def by (auto; linarith)

lemma roundDouble_error:
  "\<bar>roundDouble x - x\<bar> \<le> pow2 (dexp x - 53)"
proof (cases "x = 0")
  case True
  then show ?thesis using pow2_pos[of "dexp x - 53"] by (simp add: roundDouble_def)
next
  case False
  let ?u = "pow2 (dexp x - 52)"
  have u: "?u > 0" by (rule pow2_pos)
  have "\<bar>of_int (roundHalfEven (x / ?u)) - x / ?u\<bar> \<le> 1 / 2" by (rule roundHalfEven_near)
  then have "\<bar>of_int (roundHalfEven (x / ?u)) - x / ?u\<bar> * ?u \<le> 1 / 2 * ?u"
    using u by (simp add: mult_right_mono)
  moreover have "\<bar>of_int (roundHalfEven (x / ?u)) - x / ?u\<bar> * ?u = \<bar>roundDouble x - x\<bar>"
  proof -
    have "(of_int (roundHalfEven (x / ?u)) - x / ?u) * ?u = roundDouble x - x"
      using u False by (simp add: roundDouble_def field_simps)
    then have "\<bar>roundDouble x - x\<bar> = \<bar>of_int (roundHalfEven (x / ?u)) - x / ?u\<bar> * \<bar>?u\<bar>"
      by (metis abs_mult)
    then show ?thesis using u by simp
  qed
  moreover have "1 / 2 * ?u = pow2 (dexp x - 53)"
  proof -
    have "pow2 1 = 2" by (simp add: pow2_def)
    then show ?thesis using pow2_add[of "dexp x - 53" 1] by simp
  qed
  ultimately show ?thesis by simp
qed

lemma roundDouble_mantissa:
  assumes "x \<noteq> 0"
  shows "2 ^ 52 \<le> \<bar>roundHalfEven (x / pow2 (dexp x - 52))\<bar> \<and>
         \<bar>roundHalfEven (x / pow2 (dexp x - 52))\<bar> \<le> 2 ^ 53"
proof -
  let ?u = "pow2 (dexp x - 52)"
  let ?q = "x / ?u"
  let ?r = "roundHalfEven ?q"
  have u: "?u > 0" by (rule pow2_pos)
  have c: "pow2 52 = 2 ^ 52" "pow2 53 = 2 ^ 53"
    by (simp_all add: pow2_def)
  have p: "pow2 (dexp x) = 2 ^ 52 * ?u" "pow2 (dexp x + 1) = 2 ^ 53 * ?u"
    using pow2_add[of 52 "dexp x - 52"] pow2_add[of 53 "dexp x - 52"] unfolding c
    by (simp_all add: algebra_simps)
  have "2 ^ 52 * ?u \<le> \<bar>x\<bar>" "\<bar>x\<bar> < 2 ^ 53 * ?u"
    using dexp_bounds[OF assms] p by simp_all
  then have q: "2 ^ 52 \<le> \<bar>?q\<bar>" "\<bar>?q\<bar> < 2 ^ 53"
    using u by (simp_all add: field_simps)
  have n: "\<bar>of_int ?r - ?q\<bar> \<le> 1 / 2" by (rule roundHalfEven_near)
  have "2 ^ 52 - 1 < \<bar>real_of_int ?r\<bar>" "\<bar>real_of_int ?r\<bar> < 2 ^ 53 + 1"
    using q n by linarith+
  then have "real_of_int (2 ^ 52 - 1) < real_of_int \<bar>?r\<bar>" "real_of_int \<bar>?r\<bar> < real_of_int (2 ^ 53 + 1)"
    by simp_all
  then have "2 ^ 52 - 1 < \<bar>?r\<bar>" "\<bar>?r\<bar> < 2 ^ 53 + 1"
    by (simp_all only: of_int_less_iff)
  then show ?thesis by simp
qed

subsection \<open>The condition\<close>

text \<open>
  The second \<open>switch\<close>: \<open>shouldTrigger\<close> starts as false and no branch is taken for
  an unknown condition. The \<open>equals\<close> case is
  \<open>Math.abs(currentValue - alert.targetValue) < 0.01\<close> in double arithmetic.
\<close>

definition checkAlerts_shouldTrigger :: "string \<Rightarrow> real \<Rightarrow> real \<Rightarrow> bool" where
  "checkAlerts_shouldTrigger c v t =
     (if c = ''above'' then v > t
      else if c = ''below'' then v < t
      else if c = ''equals'' then \<bar>roundDouble (v - t)\<bar> < roundDouble (1 / 100)
      else False)"

section \<open>Alert evaluation in the \<open>POST /api/alerts/check\<close> handler\<close>

text \<open>
  The handler builds \<open>priceMap\<close> entries with the four fields below and evaluates
  every alert against the entry of its symbol.
\<close>

record price_entry =
  pe_price :: real
  pe_change :: real
  pe_changePercent :: real
  pe_volume :: real

definition handler_currentValue :: "string \<Rightarrow> price_entry \<Rightarrow> real" where
  "handler_currentValue ty d =
     (if ty = ''volume'' then pe_volume d
      else if ty = ''change'' then \<bar>pe_changePercent d\<bar>
      else pe_price d)"

definition handler_shouldTrigger :: "string \<Rightarrow> real \<Rightarrow> price_entry \<Rightarrow> real \<Rightarrow> bool" where
  "handler_shouldTrigger c v d t =
     (if c = ''above'' then v \<ge> t
      else if c = ''below'' then v \<le> t
      else if c = ''change_percent'' then \<bar>pe_changePercent d\<bar> \<ge> t
      else False)"

section \<open>The alert store, users and the mail transport\<close>

text \<open>
  The state a cycle works on: the documents of the alert collection and the log of
  the effects performed so far, in the order the code performs them. Database reads
  and writes are modelled as reliable.
\<close>

datatype event =
    Saved alert
  | NotificationDispatched nat
  | MailAttempt nat bool

record world =
  alerts :: "alert list"
  trace :: "event list"

record user =
  u_email :: string
  u_notifications_email :: bool

text \<open>
  What \<open>sendAlertNotification\<close> depends on: the user collection
  (\<open>User.findById\<close>), whether \<open>this.emailTransporter\<close> was created, and whether
  \<open>sendMail\<close> resolves (\<open>True\<close>) or rejects (\<open>False\<close>) for a user and an alert.
\<close>

record notify_env =
  users :: "nat \<Rightarrow> user option"
  emailTransporter :: bool
  sendMail :: "user \<Rightarrow> alert \<Rightarrow> bool"

definition alertById :: "nat \<Rightarrow> world \<Rightarrow> alert option" where
  "alertById i w = find (\<lambda>b. aid b = i) (alerts w)"

text \<open>\<open>alert.save()\<close>: the stored document with the same id takes the object's state.\<close>

definition save :: "alert \<Rightarrow> world \<Rightarrow> world" where
  "save a w =
     w\<lparr>alerts := map (\<lambda>b. if aid b = aid a then a else b) (alerts w),
       trace := trace w @ [Saved a]\<rparr>"

definition logEvent :: "event \<Rightarrow> world \<Rightarrow> world" where
  "logEvent e w = w\<lparr>trace := trace w @ [e]\<rparr>"

text \<open>
  \<open>sendEmailNotification\<close>: the flag is set and saved only after \<open>sendMail\<close> has
  resolved; a rejection is caught and logged.
\<close>

definition sendEmailNotification :: "notify_env \<Rightarrow> user \<Rightarrow> alert \<Rightarrow> world \<Rightarrow> world" where
  "sendEmailNotification env u a w =
     (if sendMail env u a
      then save (a\<lparr>notificationSent := True\<rparr>) (logEvent (MailAttempt (aid a) True) w)
      else logEvent (MailAttempt (aid a) False) w)"

definition sendAlertNotification :: "notify_env \<Rightarrow> alert \<Rightarrow> world \<Rightarrow> world" where
  "sendAlertNotification env a w =
     (let w1 = logEvent (NotificationDispatched (aid a)) w in
      case users env (userId a) of
        None \<Rightarrow> w1
      | Some u \<Rightarrow>
          if emailTransporter env \<and> u_notifications_email u
          then sendEmailNotification env u a w1
          else w1)"

section \<open>The evaluation cycle\<close>

text \<open>
  The query of \<open>checkAlerts\<close>: active, not triggered, no expiry or a later one. The
  clock is read once for a cycle: \<open>now\<close> is the time of the query and of every
  \<open>triggeredAt\<close> the cycle sets.
\<close>

definition eligible :: "int \<Rightarrow> alert \<Rightarrow> bool" where
  "eligible now a =
     (isActive a \<and> \<not> isTriggered a \<and>
      (case expiresAt a of None \<Rightarrow> True | Some e \<Rightarrow> e > now))"

definition toUpperChar :: "char \<Rightarrow> char" where
  "toUpperChar c =
     (let n = (of_char c :: nat) in if 97 \<le> n \<and> n \<le> 122 then char_of (n - 32) else c)"

definition toUpperCase :: "string \<Rightarrow> string" where
  "toUpperCase s = map toUpperChar s"

text \<open>\<open>MarketData.getMultiple\<close>: the active documents of the symbols, newest first.\<close>

definition getMultiple :: "market_data list \<Rightarrow> string list \<Rightarrow> market_data list" where
  "getMultiple coll symbols =
     sort_key (\<lambda>d. - md_lastUpdated d)
       (filter (\<lambda>d. md_symbol d \<in> set (map toUpperCase symbols) \<and> md_isActive d) coll)"

text \<open>The \<open>forEach\<close> that fills \<open>marketDataMap\<close>: a later document overwrites.\<close>

definition checkAlerts_marketDataMap ::
  "market_data list \<Rightarrow> alert list \<Rightarrow> string \<Rightarrow> market_data option" where
  "checkAlerts_marketDataMap coll activeAlerts =
     fold (\<lambda>d m. m(md_symbol d \<mapsto> d))
       (getMultiple coll (remdups (map symbol activeAlerts))) Map.empty"

definition triggeredDoc :: "int \<Rightarrow> real \<Rightarrow> alert \<Rightarrow> alert" where
  "triggeredDoc now v a = a\<lparr>isTriggered := True, triggeredAt := Some now, currentValue := v\<rparr>"

text \<open>
  The body of the \<open>for\<close> loop, on the state and the counter \<open>triggeredCount\<close>. Both
  \<open>continue\<close> statements leave the state as it is.
\<close>

definition checkAlerts_body ::
  "notify_env \<Rightarrow> int \<Rightarrow> (string \<Rightarrow> market_data option) \<Rightarrow> alert \<Rightarrow> world \<times> nat \<Rightarrow> world \<times> nat" where
  "checkAlerts_body env now mdMap a wn =
     (case mdMap (symbol a) of
        None \<Rightarrow> wn
      | Some d \<Rightarrow>
          (case checkAlerts_currentValue (alertType a) d of
             None \<Rightarrow> wn
           | Some v \<Rightarrow>
               if checkAlerts_shouldTrigger (condition a) v (targetValue a)
               then (sendAlertNotification env (triggeredDoc now v a)
                       (save (triggeredDoc now v a) (fst wn)), snd wn + 1)
               else (save (a\<lparr>currentValue := v\<rparr>) (fst wn), snd wn)))"

record check_result =
  checked :: nat
  triggered :: nat

definition checkAlerts ::
  "notify_env \<Rightarrow> int \<Rightarrow> market_data list \<Rightarrow> world \<Rightarrow> world \<times> check_result" where
  "checkAlerts env now coll w =
     (let activeAlerts = filter (eligible now) (alerts w) in
      if activeAlerts = [] then (w, \<lparr>checked = 0, triggered = 0\<rparr>)
      else
        let wn = fold (checkAlerts_body env now (checkAlerts_marketDataMap coll activeAlerts))
                   activeAlerts (w, 0)
        in (fst wn, \<lparr>checked = length activeAlerts, triggered = snd wn\<rparr>))"

text \<open>
  Whether the mail for an alert goes out: the user exists, the transport is configured,
  the user has email notifications on and \<open>sendMail\<close> resolves.
\<close>

definition mailDelivered :: "notify_env \<Rightarrow> alert \<Rightarrow> bool" where
  "mailDelivered env a =
     (case users env (userId a) of
        None \<Rightarrow> False
      | Some u \<Rightarrow> emailTransporter env \<and> u_notifications_email u \<and> sendMail env u a)"

text \<open>
  The document an evaluated alert ends the cycle with, for the observed value \<open>v\<close>;
  \<open>checkAlerts_evaluated\<close> below proves that the cycle stores exactly this.
\<close>

definition cycleOutcome :: "notify_env \<Rightarrow> int \<Rightarrow> real \<Rightarrow> alert \<Rightarrow> alert" where
  "cycleOutcome env now v a =
     (if checkAlerts_shouldTrigger (condition a) v (targetValue a)
      then (triggeredDoc now v a)\<lparr>notificationSent :=
              notificationSent a \<or> mailDelivered env (triggeredDoc now v a)\<rparr>
      else a\<lparr>currentValue := v\<rparr>)"

text \<open>Concrete inputs for the examples below.\<close>

definition ex_alert :: "string \<Rightarrow> string \<Rightarrow> real \<Rightarrow> alert" where
  "ex_alert ty c t =
     \<lparr>aid = 1, userId = 7, symbol = ''TCS'', alertType = ty, condition = c,
      targetValue = t, currentValue = 0, message = ''watch'', isActive = True,
      isTriggered = False, triggeredAt = None, notificationSent = False,
      priority = ''medium'', expiresAt = None\<rparr>"

definition ex_quote :: "real \<Rightarrow> real \<Rightarrow> real \<Rightarrow> market_data" where
  "ex_quote p cp vol =
     \<lparr>md_symbol = ''TCS'', md_price = p, md_change = 0, md_changePercent = cp,
      md_volume = vol, md_lastUpdated = 0, md_source = ''yahoo_finance'',
      md_isActive = True\<rparr>"

definition ex_user :: user where
  "ex_user = \<lparr>u_email = ''u@example.org'', u_notifications_email = True\<rparr>"

definition ex_env :: "bool \<Rightarrow> notify_env" where
  "ex_env ok =
     \<lparr>users = (\<lambda>i. if i = 7 then Some ex_user else None), emailTransporter = True,
      sendMail = (\<lambda>u a. ok)\<rparr>"

definition ex_world :: "alert \<Rightarrow> world" where
  "ex_world a = \<lparr>alerts = [a], trace = []\<rparr>"

section \<open>What a cycle stores for each alert\<close>

lemma map_aid_save: "map aid (alerts (save a w)) = map aid (alerts w)"
  by (simp add: save_def comp_def cong: map_cong)

lemma find_replace:
  "find (\<lambda>b. aid b = i) (map (\<lambda>b. if aid b = aid a then a else b) xs) =
     (if i = aid a then (if i \<in> aid ` set xs then Some a else None)
      else find (\<lambda>b. aid b = i) xs)"
  by (induction xs) auto

lemma alertById_save:
  "alertById i (save a w) =
     (if i = aid a then (if alertById i w = None then None else Some a) else alertById i w)"
  by (auto simp: alertById_def save_def find_replace find_None_iff image_iff)

lemma alertById_logEvent: "alertById i (logEvent e w) = alertById i w"
  by (simp add: alertById_def logEvent_def)

lemma find_aid_distinct:
  "distinct (map aid xs) \<Longrightarrow> find (\<lambda>b. aid b = aid a) xs = Some a \<longleftrightarrow> a \<in> set xs"
  by (induction xs) auto

lemma alertById_Some_iff:
  "distinct (map aid (alerts w)) \<Longrightarrow> alertById (aid a) w = Some a \<longleftrightarrow> a \<in> set (alerts w)"
  unfolding alertById_def by (rule find_aid_distinct)

lemma alertById_sendAlertNotification:
  "alertById i (sendAlertNotification env a w) =
     (if i = aid a \<and> mailDelivered env a \<and> alertById i w \<noteq> None
      then Some (a\<lparr>notificationSent := True\<rparr>) else alertById i w)"
  by (auto simp: sendAlertNotification_def sendEmailNotification_def mailDelivered_def
      alertById_save alertById_logEvent Let_def split: option.splits)

lemma triggeredDoc_aid [simp]: "aid (triggeredDoc now v a) = aid a"
  by (simp add: triggeredDoc_def)

lemma body_other:
  "aid a \<noteq> i \<Longrightarrow> alertById i (fst (checkAlerts_body env now m a wn)) = alertById i (fst wn)"
  by (auto simp: checkAlerts_body_def alertById_sendAlertNotification alertById_save
      split: option.splits)

lemma body_present:
  "alertById i (fst (checkAlerts_body env now m a wn)) = None \<longleftrightarrow> alertById i (fst wn) = None"
  by (auto simp: checkAlerts_body_def alertById_sendAlertNotification alertById_save
      split: option.splits if_splits)

lemma body_self:
  assumes "alertById (aid a) (fst wn) \<noteq> None" "m (symbol a) = Some d"
    "checkAlerts_currentValue (alertType a) d = Some v"
  shows "alertById (aid a) (fst (checkAlerts_body env now m a wn)) = Some (cycleOutcome env now v a)"
  using assms
  by (auto simp: checkAlerts_body_def alertById_sendAlertNotification alertById_save
      cycleOutcome_def triggeredDoc_def)

lemma fold_other:
  "\<forall>b\<in>set acts. aid b \<noteq> i \<Longrightarrow>
   alertById i (fst (fold (checkAlerts_body env now m) acts wn)) = alertById i (fst wn)"
  by (induction acts arbitrary: wn) (auto simp: body_other)

lemma fold_present:
  "alertById i (fst (fold (checkAlerts_body env now m) acts wn)) = None \<longleftrightarrow>
   alertById i (fst wn) = None"
  by (induction acts arbitrary: wn) (auto simp: body_present)

lemma fold_self:
  assumes "distinct (map aid acts)" "a \<in> set acts" "alertById (aid a) (fst wn) \<noteq> None"
    "m (symbol a) = Some d" "checkAlerts_currentValue (alertType a) d = Some v"
  shows "alertById (aid a) (fst (fold (checkAlerts_body env now m) acts wn)) =
         Some (cycleOutcome env now v a)"
  using assms
proof (induction acts arbitrary: wn)
  case Nil
  then show ?case by simp
next
  case (Cons b acts)
  show ?case
  proof (cases "b = a")
    case True
    have "aid a \<notin> aid ` set acts" using Cons.prems(1) True by simp
    then have "\<forall>c\<in>set acts. aid c \<noteq> aid a" by (metis imageI)
    then show ?thesis
      using True Cons.prems by (simp add: fold_other body_self)
  next
    case False
    then have "a \<in> set acts" using Cons.prems(2) by simp
    moreover have "alertById (aid a) (fst (checkAlerts_body env now m b wn)) \<noteq> None"
      using Cons.prems(3) by (simp add: body_present)
    ultimately show ?thesis using Cons.IH Cons.prems by simp
  qed
qed

lemma checkAlerts_evaluated:
  assumes "distinct (map aid (alerts w))" "a \<in> set (alerts w)" "eligible now a"
    "checkAlerts_marketDataMap coll (filter (eligible now) (alerts w)) (symbol a) = Some d"
    "checkAlerts_currentValue (alertType a) d = Some v"
  shows "alertById (aid a) (fst (checkAlerts env now coll w)) = Some (cycleOutcome env now v a)"
proof -
  let ?acts = "filter (eligible now) (alerts w)"
  have in_acts: "a \<in> set ?acts" using assms(2,3) by simp
  then have ne: "?acts \<noteq> []" by (metis empty_iff list.set(1))
  have d: "distinct (map aid ?acts)" using assms(1) by (simp add: distinct_map_filter)
  have p: "alertById (aid a) (fst (w, 0::nat)) \<noteq> None"
    using assms(1,2) alertById_Some_iff by fastforce
  show ?thesis
    using fold_self[where m = "checkAlerts_marketDataMap coll ?acts" and env = env and now = now,
        OF d in_acts p assms(4,5)] ne
    by (simp add: checkAlerts_def Let_def)
qed

lemma checkAlerts_untouched:
  assumes "distinct (map aid (alerts w))" "a \<in> set (alerts w)" "\<not> eligible now a"
  shows "alertById (aid a) (fst (checkAlerts env now coll w)) = Some a"
proof -
  let ?acts = "filter (eligible now) (alerts w)"
  have "\<forall>b\<in>set ?acts. aid b \<noteq> aid a"
  proof
    fix b assume b: "b \<in> set ?acts"
    then have "b \<noteq> a" using assms(3) by auto
    moreover have "b \<in> set (alerts w)" using b by simp
    ultimately show "aid b \<noteq> aid a"
      using assms(1,2) by (meson distinct_map inj_onD)
  qed
  then have "alertById (aid a) (fst (fold (checkAlerts_body env now (checkAlerts_marketDataMap coll ?acts)) ?acts (w, 0))) = alertById (aid a) w"
    by (simp add: fold_other)
  moreover have "alertById (aid a) w = Some a"
    using assms(1,2) by (simp add: alertById_Some_iff)
  ultimately show ?thesis by (simp add: checkAlerts_def Let_def)
qed

lemmas ex_cycle_defs = checkAlerts_def checkAlerts_body_def checkAlerts_marketDataMap_def
  getMultiple_def ex_quote_def ex_world_def ex_alert_def ex_env_def ex_user_def eligible_def
  toUpperCase_def toUpperChar_def checkAlerts_currentValue_def
  alertById_def save_def logEvent_def sendAlertNotification_def sendEmailNotification_def
  triggeredDoc_def

lemmas ex_defs = ex_cycle_defs checkAlerts_shouldTrigger_def

section \<open>Claims about the trigger decision\<close>

text \<open>
  C1, as the specification states it, fails on \<open>AlertService.checkAlerts\<close>: an
  \<open>above\<close> alert whose observed price equals its target is eligible, has a resolved
  quote, and is left untriggered by the cycle, although observed \<open>\<ge>\<close> target.
\<close>

theorem C1_counterexample:
  "eligible 0 (ex_alert ''price'' ''above'' 100) \<and>
   checkAlerts_currentValue ''price'' (ex_quote 100 0 0) = Some 100 \<and>
   (100::real) \<ge> targetValue (ex_alert ''price'' ''above'' 100) \<and>
   map_option isTriggered (alertById 1 (fst (checkAlerts (ex_env True) 0 [ex_quote 100 0 0]
     (ex_world (ex_alert ''price'' ''above'' 100))))) = Some False"
  by (simp add: ex_defs)

text \<open>
  C1 (amended). For every eligible alert evaluated by \<open>AlertService.checkAlerts\<close>
  whose symbol has a resolved quote, \<open>above\<close> triggers if and only if the observed
  value is strictly greater than the target, and \<open>below\<close> if and only if it is
  strictly less. The inclusive comparisons are those of the
  \<open>POST /api/alerts/check\<close> handler: there \<open>above\<close> holds iff observed \<open>\<ge>\<close> target
  and \<open>below\<close> iff observed \<open>\<le>\<close> target.
\<close>

theorem C1_above_below:
  assumes "distinct (map aid (alerts w))" and "a \<in> set (alerts w)" and "eligible now a"
    and "checkAlerts_marketDataMap coll (filter (eligible now) (alerts w)) (symbol a) = Some d"
    and "checkAlerts_currentValue (alertType a) d = Some v"
  shows "(condition a = ''above'' \<longrightarrow>
            map_option isTriggered (alertById (aid a) (fst (checkAlerts env now coll w)))
              = Some (v > targetValue a)) \<and>
         (condition a = ''below'' \<longrightarrow>
            map_option isTriggered (alertById (aid a) (fst (checkAlerts env now coll w)))
              = Some (v < targetValue a)) \<and>
         handler_shouldTrigger ''above'' v' pe t = (v' \<ge> t) \<and>
         handler_shouldTrigger ''below'' v' pe t = (v' \<le> t)"
proof -
  have "alertById (aid a) (fst (checkAlerts env now coll w)) = Some (cycleOutcome env now v a)"
    using assms by (rule checkAlerts_evaluated)
  moreover have "\<not> isTriggered a" using assms(3) by (simp add: eligible_def)
  ultimately show ?thesis
    by (simp add: cycleOutcome_def checkAlerts_shouldTrigger_def handler_shouldTrigger_def
        triggeredDoc_def)
qed

theorem C1_above_below_witness:
  "map_option isTriggered (alertById 1 (fst (checkAlerts (ex_env True) 0 [ex_quote 101 0 0]
     (ex_world (ex_alert ''price'' ''above'' 100))))) = Some True \<and>
   handler_shouldTrigger ''above'' 100
     \<lparr>pe_price = 100, pe_change = 0, pe_changePercent = 0, pe_volume = 0\<rparr> 100"
proof -
  let ?a = "ex_alert ''price'' ''above'' 100"
  let ?pe = "\<lparr>pe_price = 100, pe_change = 0, pe_changePercent = 0, pe_volume = 0\<rparr>"
  have m: "checkAlerts_marketDataMap [ex_quote 101 0 0]
        (filter (eligible 0) (alerts (ex_world ?a))) (symbol ?a) = Some (ex_quote 101 0 0)"
    by (simp add: ex_defs)
  have d: "distinct (map aid (alerts (ex_world ?a)))"
    by (simp add: ex_defs)
  have i: "?a \<in> set (alerts (ex_world ?a))"
    by (simp add: ex_defs)
  have e: "eligible 0 ?a"
    by (simp add: ex_defs)
  have v: "checkAlerts_currentValue (alertType ?a) (ex_quote 101 0 0) = Some 101"
    by (simp add: ex_defs)
  show ?thesis
    using C1_above_below[OF d i e m v, where env = "ex_env True" and v' = 100 and pe = ?pe
        and t = 100]
    by (simp add: ex_alert_def)
qed

text \<open>
  C2, as stated, fails on \<open>AlertService.checkAlerts\<close>: a \<open>change_percent\<close> alert
  \<open>above 3\<close> triggers on a percent change of \<open>+5\<close> and does not on \<open>-5\<close>.
\<close>

theorem C2_counterexample:
  "eligible 0 (ex_alert ''change_percent'' ''above'' 3) \<and>
   \<bar>5::real\<bar> = \<bar>- 5\<bar> \<and>
   map_option isTriggered (alertById 1 (fst (checkAlerts (ex_env True) 0 [ex_quote 100 5 0]
     (ex_world (ex_alert ''change_percent'' ''above'' 3))))) = Some True \<and>
   map_option isTriggered (alertById 1 (fst (checkAlerts (ex_env True) 0 [ex_quote 100 (- 5) 0]
     (ex_world (ex_alert ''change_percent'' ''above'' 3))))) = Some False"
  by (simp add: ex_defs)

text \<open>
  C2 (amended). In \<open>AlertService.checkAlerts\<close> the observed value of an eligible
  \<open>change_percent\<close> alert with a resolved quote is the signed percent change of the
  quote: it is what the cycle stores as \<open>currentValue\<close> and what the condition is
  checked on. The absolute value is taken by the \<open>POST /api/alerts/check\<close> handler
  only, for its alert type \<open>change\<close>: there the observed value is the magnitude of
  the percent change, and the decision is the same for \<open>+x\<close> and \<open>-x\<close>.
\<close>

theorem C2_change_percent_observed:
  assumes "distinct (map aid (alerts w))" and "a \<in> set (alerts w)" and "eligible now a"
    and "checkAlerts_marketDataMap coll (filter (eligible now) (alerts w)) (symbol a) = Some d"
    and "alertType a = ''change_percent''"
  shows "map_option currentValue (alertById (aid a) (fst (checkAlerts env now coll w)))
           = Some (md_changePercent d) \<and>
         map_option isTriggered (alertById (aid a) (fst (checkAlerts env now coll w)))
           = Some (checkAlerts_shouldTrigger (condition a) (md_changePercent d) (targetValue a)) \<and>
         handler_currentValue ''change'' (pe\<lparr>pe_changePercent := x\<rparr>) = \<bar>x\<bar> \<and>
         handler_shouldTrigger c (handler_currentValue ''change'' (pe\<lparr>pe_changePercent := x\<rparr>))
             (pe\<lparr>pe_changePercent := x\<rparr>) t
           = handler_shouldTrigger c (handler_currentValue ''change'' (pe\<lparr>pe_changePercent := - x\<rparr>))
             (pe\<lparr>pe_changePercent := - x\<rparr>) t"
proof -
  have v: "checkAlerts_currentValue (alertType a) d = Some (md_changePercent d)"
    using assms(5) by (simp add: checkAlerts_currentValue_def)
  have "alertById (aid a) (fst (checkAlerts env now coll w))
          = Some (cycleOutcome env now (md_changePercent d) a)"
    using assms(1-4) v by (rule checkAlerts_evaluated)
  moreover have "\<not> isTriggered a" using assms(3) by (simp add: eligible_def)
  ultimately show ?thesis
    by (simp add: cycleOutcome_def handler_shouldTrigger_def handler_currentValue_def
        triggeredDoc_def)
qed

theorem C2_change_percent_observed_witness:
  "map_option currentValue (alertById 1 (fst (checkAlerts (ex_env True) 0 [ex_quote 100 (- 5) 0]
     (ex_world (ex_alert ''change_percent'' ''above'' 3))))) = Some (- 5) \<and>
   map_option isTriggered (alertById 1 (fst (checkAlerts (ex_env True) 0 [ex_quote 100 (- 5) 0]
     (ex_world (ex_alert ''change_percent'' ''above'' 3))))) = Some False \<and>
   handler_currentValue ''change''
     \<lparr>pe_price = 100, pe_change = 0, pe_changePercent = - 5, pe_volume = 0\<rparr> = 5"
proof -
  let ?a = "ex_alert ''change_percent'' ''above'' 3"
  let ?q = "ex_quote 100 (- 5) 0"
  let ?pe = "\<lparr>pe_price = 100, pe_change = 0, pe_changePercent = 0, pe_volume = 0\<rparr>"
  have m: "checkAlerts_marketDataMap [?q]
        (filter (eligible 0) (alerts (ex_world ?a))) (symbol ?a) = Some ?q"
    by (simp add: ex_defs)
  have d: "distinct (map aid (alerts (ex_world ?a)))"
    by (simp add: ex_defs)
  have i: "?a \<in> set (alerts (ex_world ?a))"
    by (simp add: ex_defs)
  have e: "eligible 0 ?a"
    by (simp add: ex_defs)
  have ty: "alertType ?a = ''change_percent''"
    by (simp add: ex_defs)
  show ?thesis
    using C2_change_percent_observed[OF d i e m ty, where env = "ex_env True" and pe = ?pe
        and x = "- 5" and c = "''above''" and t = 3]
    by (simp add: ex_alert_def ex_quote_def checkAlerts_shouldTrigger_def)
qed

text \<open>
  Two doubles for the boundary of the \<open>equals\<close> case: JavaScript prints them as
  \<open>0.011953125\<close> and \<open>0.0019531250000000004\<close>.
\<close>

definition ex_observed :: real where
  "ex_observed = 6890507429876859 / 2 ^ 59"

definition ex_target :: real where
  "ex_target = 4503599627370497 / 2 ^ 61"

lemma ex_boundary_not_triggered:
  "\<not> checkAlerts_shouldTrigger ''equals'' ex_observed ex_target"
  by code_simp

text \<open>
  C8, as stated, fails at the boundary: for the doubles \<open>ex_observed\<close> and
  \<open>ex_target\<close> the absolute difference is strictly less than 0.01, yet the cycle
  leaves the alert untriggered, because the subtraction rounds up to the double
  \<open>0.01\<close>.
\<close>

theorem C8_counterexample:
  "roundDouble ex_observed = ex_observed \<and> roundDouble ex_target = ex_target \<and>
   \<bar>ex_observed - ex_target\<bar> < 1 / 100 \<and>
   roundDouble (ex_observed - ex_target) = roundDouble (1 / 100) \<and>
   map_option isTriggered (alertById 1 (fst (checkAlerts (ex_env True) 0
     [ex_quote ex_observed 0 0] (ex_world (ex_alert ''price'' ''equals'' ex_target)))))
     = Some False"
proof -
  have "roundDouble ex_observed = ex_observed" "roundDouble ex_target = ex_target"
    "\<bar>ex_observed - ex_target\<bar> < 1 / 100"
    "roundDouble (ex_observed - ex_target) = roundDouble (1 / 100)"
    by code_simp+
  moreover have "map_option isTriggered (alertById 1 (fst (checkAlerts (ex_env True) 0
     [ex_quote ex_observed 0 0] (ex_world (ex_alert ''price'' ''equals'' ex_target)))))
     = Some False"
    using ex_boundary_not_triggered by (simp add: ex_cycle_defs)
  ultimately show ?thesis by blast
qed

text \<open>
  C8 (amended). For every eligible alert with condition \<open>equals\<close> and a resolved
  quote, the cycle triggers the alert if and only if the difference between the
  observed value and the target, as the double subtraction rounds it, is in absolute
  value strictly less than the double nearest to 0.01; with target 100.00 the observed
  value 100.005 triggers and 100.02 does not.
\<close>

theorem C8_equals_epsilon:
  assumes "distinct (map aid (alerts w))" and "a \<in> set (alerts w)" and "eligible now a"
    and "checkAlerts_marketDataMap coll (filter (eligible now) (alerts w)) (symbol a) = Some d"
    and "checkAlerts_currentValue (alertType a) d = Some v"
    and "condition a = ''equals''"
  shows "map_option isTriggered (alertById (aid a) (fst (checkAlerts env now coll w)))
           = Some (\<bar>roundDouble (v - targetValue a)\<bar> < roundDouble (1 / 100)) \<and>
         roundDouble (1 / 100) = 5764607523034235 / 2 ^ 59 \<and>
         checkAlerts_shouldTrigger ''equals'' (roundDouble 100.005) (roundDouble 100.00) \<and>
         \<not> checkAlerts_shouldTrigger ''equals'' (roundDouble 100.02) (roundDouble 100.00)"
proof -
  have "alertById (aid a) (fst (checkAlerts env now coll w)) = Some (cycleOutcome env now v a)"
    using assms(1-5) by (rule checkAlerts_evaluated)
  moreover have "\<not> isTriggered a" using assms(3) by (simp add: eligible_def)
  ultimately have "map_option isTriggered (alertById (aid a) (fst (checkAlerts env now coll w)))
           = Some (\<bar>roundDouble (v - targetValue a)\<bar> < roundDouble (1 / 100))"
    using assms(6)
    by (simp add: cycleOutcome_def checkAlerts_shouldTrigger_def triggeredDoc_def)
  moreover have "roundDouble (1 / 100) = 5764607523034235 / 2 ^ 59"
    by code_simp
  moreover have "checkAlerts_shouldTrigger ''equals'' (roundDouble 100.005) (roundDouble 100.00)"
    by code_simp
  moreover have "\<not> checkAlerts_shouldTrigger ''equals'' (roundDouble 100.02) (roundDouble 100.00)"
    by code_simp
  ultimately show ?thesis by blast
qed

definition ex_near :: real where
  "ex_near = roundDouble 100.005"

lemma ex_near_triggers: "checkAlerts_shouldTrigger ''equals'' ex_near 100"
  by code_simp

theorem C8_equals_epsilon_witness:
  "map_option isTriggered (alertById 1 (fst (checkAlerts (ex_env True) 0 [ex_quote ex_near 0 0]
     (ex_world (ex_alert ''price'' ''equals'' 100))))) = Some True \<and>
   \<bar>roundDouble (ex_near - 100)\<bar> < roundDouble (1 / 100)"
proof -
  let ?a = "ex_alert ''price'' ''equals'' 100"
  let ?q = "ex_quote ex_near 0 0"
  have m: "checkAlerts_marketDataMap [?q]
        (filter (eligible 0) (alerts (ex_world ?a))) (symbol ?a) = Some ?q"
    by (simp add: ex_cycle_defs)
  have d: "distinct (map aid (alerts (ex_world ?a)))"
    by (simp add: ex_cycle_defs)
  have i: "?a \<in> set (alerts (ex_world ?a))"
    by (simp add: ex_cycle_defs)
  have e: "eligible 0 ?a"
    by (simp add: ex_cycle_defs)
  have v: "checkAlerts_currentValue (alertType ?a) ?q = Some ex_near"
    by (simp add: ex_cycle_defs)
  have c: "condition ?a = ''equals''"
    by (simp add: ex_cycle_defs)
  have t: "\<bar>roundDouble (ex_near - 100)\<bar> < roundDouble (1 / 100)"
    using ex_near_triggers by (simp add: checkAlerts_shouldTrigger_def)
  show ?thesis
    using C8_equals_epsilon[OF d i e m v c, where env = "ex_env True"] t
    by (simp add: ex_alert_def)
qed

section \<open>Alert updates, the expiry sweep and sequences of operations\<close>

text \<open>
  \<open>updateAlert\<close> passes the caller's object to \<open>$set\<close>. The object is modelled as
  the list of its field assignments, for the fields of the schema a caller can set
  without a setter of the schema rewriting the value.
\<close>

datatype alert_field =
    SetAlertType string
  | SetCondition string
  | SetTargetValue real
  | SetCurrentValue real
  | SetMessage string
  | SetIsActive bool
  | SetIsTriggered bool
  | SetNotificationSent bool
  | SetPriority string
  | SetExpiresAt int

fun applyField :: "alert_field \<Rightarrow> alert \<Rightarrow> alert" where
  "applyField (SetAlertType x) a = a\<lparr>alertType := x\<rparr>"
| "applyField (SetCondition x) a = a\<lparr>condition := x\<rparr>"
| "applyField (SetTargetValue x) a = a\<lparr>targetValue := x\<rparr>"
| "applyField (SetCurrentValue x) a = a\<lparr>currentValue := x\<rparr>"
| "applyField (SetMessage x) a = a\<lparr>message := x\<rparr>"
| "applyField (SetIsActive x) a = a\<lparr>isActive := x\<rparr>"
| "applyField (SetIsTriggered x) a = a\<lparr>isTriggered := x\<rparr>"
| "applyField (SetNotificationSent x) a = a\<lparr>notificationSent := x\<rparr>"
| "applyField (SetPriority x) a = a\<lparr>priority := x\<rparr>"
| "applyField (SetExpiresAt x) a = a\<lparr>expiresAt := Some x\<rparr>"

text \<open>\<open>runValidators: true\<close>: the \<open>enum\<close> validators of the schema.\<close>

fun validField :: "alert_field \<Rightarrow> bool" where
  "validField (SetAlertType x) = (x \<in> set [''price'', ''volume'', ''change_percent'', ''technical''])"
| "validField (SetCondition x) = (x \<in> set [''above'', ''below'', ''equals''])"
| "validField (SetPriority x) = (x \<in> set [''low'', ''medium'', ''high''])"
| "validField _ = True"

datatype error = AlertNotFound | ValidationError

text \<open>\<open>findOneAndUpdate\<close> changes the first document that matches the filter.\<close>

fun updateFirst :: "('a \<Rightarrow> bool) \<Rightarrow> ('a \<Rightarrow> 'a) \<Rightarrow> 'a list \<Rightarrow> 'a list" where
  "updateFirst P f [] = []"
| "updateFirst P f (x # xs) = (if P x then f x # xs else x # updateFirst P f xs)"

definition updateAlert ::
  "nat \<Rightarrow> nat \<Rightarrow> alert_field list \<Rightarrow> alert list \<Rightarrow> error + (alert \<times> alert list)" where
  "updateAlert alertId uid updates store =
     (if \<not> list_all validField updates then Inl ValidationError
      else
        case find (\<lambda>a. aid a = alertId \<and> userId a = uid) store of
          None \<Rightarrow> Inl AlertNotFound
        | Some a \<Rightarrow>
            Inr (fold applyField updates a,
                 updateFirst (\<lambda>a. aid a = alertId \<and> userId a = uid)
                   (fold applyField updates) store))"

text \<open>\<open>cleanupExpiredAlerts\<close>: the filter of \<open>updateMany\<close> and its update.\<close>

definition expiredActive :: "int \<Rightarrow> alert \<Rightarrow> bool" where
  "expiredActive now a =
     ((case expiresAt a of None \<Rightarrow> False | Some e \<Rightarrow> e < now) \<and> isActive a)"

definition cleanupExpiredAlerts :: "int \<Rightarrow> alert list \<Rightarrow> alert list \<times> nat" where
  "cleanupExpiredAlerts now store =
     (map (\<lambda>a. if expiredActive now a then a\<lparr>isActive := False\<rparr> else a) store,
      length (filter (expiredActive now) store))"

text \<open>
  The operations that change the alert collection, and what each does to the state.
  A failed update leaves the state as it is.
\<close>

datatype operation =
    RunCycle notify_env int "market_data list"
  | ExpirySweep int
  | UpdateAlert nat nat "alert_field list"

fun applyOp :: "operation \<Rightarrow> world \<Rightarrow> world" where
  "applyOp (RunCycle env now coll) w = fst (checkAlerts env now coll w)"
| "applyOp (ExpirySweep now) w = w\<lparr>alerts := fst (cleanupExpiredAlerts now (alerts w))\<rparr>"
| "applyOp (UpdateAlert alertId uid updates) w =
     (case updateAlert alertId uid updates (alerts w) of
        Inl e \<Rightarrow> w
      | Inr r \<Rightarrow> w\<lparr>alerts := snd r\<rparr>)"

fun isUpdate :: "operation \<Rightarrow> bool" where
  "isUpdate (UpdateAlert _ _ _) = True"
| "isUpdate _ = False"

fun isCycle :: "operation \<Rightarrow> bool" where
  "isCycle (RunCycle _ _ _) = True"
| "isCycle _ = False"

definition run :: "operation list \<Rightarrow> world \<Rightarrow> world" where
  "run ops w = fold applyOp ops w"

text \<open>The effects that concern one alert, in order.\<close>

fun event_aid :: "event \<Rightarrow> nat" where
  "event_aid (Saved a) = aid a"
| "event_aid (NotificationDispatched i) = i"
| "event_aid (MailAttempt i ok) = i"

definition eventsFor :: "nat \<Rightarrow> world \<Rightarrow> event list" where
  "eventsFor i w = filter (\<lambda>e. event_aid e = i) (trace w)"

section \<open>The effects of a cycle, per alert\<close>

lemma eventsFor_save:
  "eventsFor i (save a w) = eventsFor i w @ (if aid a = i then [Saved a] else [])"
  by (simp add: eventsFor_def save_def)

lemma eventsFor_logEvent:
  "eventsFor i (logEvent e w) = eventsFor i w @ (if event_aid e = i then [e] else [])"
  by (simp add: eventsFor_def logEvent_def)

text \<open>
  The effects \<open>sendAlertNotification\<close> performs for an alert;
  \<open>eventsFor_sendAlertNotification\<close> below proves that these are the ones it logs.
\<close>

definition notifyEvents :: "notify_env \<Rightarrow> alert \<Rightarrow> event list" where
  "notifyEvents env a =
     NotificationDispatched (aid a) #
     (case users env (userId a) of
        None \<Rightarrow> []
      | Some u \<Rightarrow>
          if emailTransporter env \<and> u_notifications_email u
          then (if sendMail env u a
                then [MailAttempt (aid a) True, Saved (a\<lparr>notificationSent := True\<rparr>)]
                else [MailAttempt (aid a) False])
          else [])"

lemma eventsFor_sendAlertNotification:
  "eventsFor i (sendAlertNotification env a w) =
     eventsFor i w @ (if aid a = i then notifyEvents env a else [])"
  by (auto simp: sendAlertNotification_def sendEmailNotification_def notifyEvents_def
      eventsFor_save eventsFor_logEvent Let_def split: option.splits)

lemma events_body_other:
  "aid a \<noteq> i \<Longrightarrow> eventsFor i (fst (checkAlerts_body env now m a wn)) = eventsFor i (fst wn)"
  by (auto simp: checkAlerts_body_def eventsFor_sendAlertNotification eventsFor_save
      split: option.splits)

lemma events_body_self:
  assumes "m (symbol a) = Some d" "checkAlerts_currentValue (alertType a) d = Some v"
  shows "eventsFor (aid a) (fst (checkAlerts_body env now m a wn)) =
         eventsFor (aid a) (fst wn) @
           (if checkAlerts_shouldTrigger (condition a) v (targetValue a)
            then Saved (triggeredDoc now v a) # notifyEvents env (triggeredDoc now v a)
            else [Saved (a\<lparr>currentValue := v\<rparr>)])"
  using assms
  by (auto simp: checkAlerts_body_def eventsFor_sendAlertNotification eventsFor_save)

lemma events_fold_other:
  "\<forall>b\<in>set acts. aid b \<noteq> i \<Longrightarrow>
   eventsFor i (fst (fold (checkAlerts_body env now m) acts wn)) = eventsFor i (fst wn)"
  by (induction acts arbitrary: wn) (auto simp: events_body_other)

lemma events_fold_self:
  assumes "distinct (map aid acts)" "a \<in> set acts"
    "m (symbol a) = Some d" "checkAlerts_currentValue (alertType a) d = Some v"
  shows "eventsFor (aid a) (fst (fold (checkAlerts_body env now m) acts wn)) =
         eventsFor (aid a) (fst wn) @
           (if checkAlerts_shouldTrigger (condition a) v (targetValue a)
            then Saved (triggeredDoc now v a) # notifyEvents env (triggeredDoc now v a)
            else [Saved (a\<lparr>currentValue := v\<rparr>)])"
  using assms
proof (induction acts arbitrary: wn)
  case Nil
  then show ?case by simp
next
  case (Cons b acts)
  show ?case
  proof (cases "b = a")
    case True
    have "aid a \<notin> aid ` set acts" using Cons.prems(1) True by simp
    then have "\<forall>c\<in>set acts. aid c \<noteq> aid a" by (metis imageI)
    then show ?thesis
      using True Cons.prems by (simp add: events_fold_other events_body_self)
  next
    case False
    then have a: "a \<in> set acts" using Cons.prems(2) by simp
    have "aid b \<noteq> aid a" using Cons.prems(1) a by force
    then have "eventsFor (aid a) (fst (checkAlerts_body env now m b wn)) = eventsFor (aid a) (fst wn)"
      by (rule events_body_other)
    then show ?thesis using Cons.IH[OF _ a Cons.prems(3,4)] Cons.prems(1) by simp
  qed
qed


lemma map_aid_logEvent: "map aid (alerts (logEvent e w)) = map aid (alerts w)"
  by (simp add: logEvent_def)

lemma map_aid_sendAlertNotification:
  "map aid (alerts (sendAlertNotification env a w)) = map aid (alerts w)"
  by (simp add: sendAlertNotification_def sendEmailNotification_def map_aid_save
      map_aid_logEvent Let_def split: option.splits)

lemma map_aid_body:
  "map aid (alerts (fst (checkAlerts_body env now m a wn))) = map aid (alerts (fst wn))"
  by (simp add: checkAlerts_body_def map_aid_sendAlertNotification map_aid_save
      split: option.splits)

lemma map_aid_fold:
  "map aid (alerts (fst (fold (checkAlerts_body env now m) acts wn))) = map aid (alerts (fst wn))"
  by (induction acts arbitrary: wn) (simp_all add: map_aid_body)

lemma map_aid_checkAlerts:
  "map aid (alerts (fst (checkAlerts env now coll w))) = map aid (alerts w)"
  by (simp add: checkAlerts_def Let_def map_aid_fold)

lemma alertById_in_set:
  "alertById i w = Some b \<Longrightarrow> b \<in> set (alerts w) \<and> aid b = i"
  unfolding alertById_def by (auto simp: find_Some_iff)

lemma not_eligible_others:
  assumes "distinct (map aid (alerts w))" "a \<in> set (alerts w)" "\<not> eligible now a"
  shows "\<forall>b\<in>set (filter (eligible now) (alerts w)). aid b \<noteq> aid a"
proof
  fix b assume b: "b \<in> set (filter (eligible now) (alerts w))"
  then have "b \<noteq> a" using assms(3) by auto
  moreover have "b \<in> set (alerts w)" using b by simp
  ultimately show "aid b \<noteq> aid a"
    using assms(1,2) by (meson distinct_map inj_onD)
qed

lemma checkAlerts_events_untouched:
  assumes "distinct (map aid (alerts w))" "a \<in> set (alerts w)" "\<not> eligible now a"
  shows "eventsFor (aid a) (fst (checkAlerts env now coll w)) = eventsFor (aid a) w"
  using not_eligible_others[OF assms]
  by (simp add: checkAlerts_def Let_def events_fold_other)

lemma checkAlerts_events_evaluated:
  assumes "distinct (map aid (alerts w))" "a \<in> set (alerts w)" "eligible now a"
    "checkAlerts_marketDataMap coll (filter (eligible now) (alerts w)) (symbol a) = Some d"
    "checkAlerts_currentValue (alertType a) d = Some v"
  shows "eventsFor (aid a) (fst (checkAlerts env now coll w)) =
         eventsFor (aid a) w @
           (if checkAlerts_shouldTrigger (condition a) v (targetValue a)
            then Saved (triggeredDoc now v a) # notifyEvents env (triggeredDoc now v a)
            else [Saved (a\<lparr>currentValue := v\<rparr>)])"
proof -
  let ?acts = "filter (eligible now) (alerts w)"
  have in_acts: "a \<in> set ?acts" using assms(2,3) by simp
  then have ne: "?acts \<noteq> []" by (metis empty_iff list.set(1))
  have d: "distinct (map aid ?acts)" using assms(1) by (simp add: distinct_map_filter)
  show ?thesis
    using events_fold_self[where m = "checkAlerts_marketDataMap coll ?acts" and env = env
        and now = now and wn = "(w, 0)", OF d in_acts assms(4,5)] ne
    by (simp add: checkAlerts_def Let_def)
qed

lemma find_map_same_aid:
  "(\<And>x. aid (f x) = aid x) \<Longrightarrow>
   find (\<lambda>b. aid b = i) (map f xs) = map_option f (find (\<lambda>b. aid b = i) xs)"
  by (induction xs) auto

lemma alertById_sweep:
  "alertById i (applyOp (ExpirySweep now) w) =
     map_option (\<lambda>a. if expiredActive now a then a\<lparr>isActive := False\<rparr> else a) (alertById i w)"
  by (simp add: alertById_def cleanupExpiredAlerts_def find_map_same_aid)

lemma map_aid_sweep: "map aid (alerts (applyOp (ExpirySweep now) w)) = map aid (alerts w)"
  by (simp add: cleanupExpiredAlerts_def comp_def cong: map_cong)

lemma eventsFor_sweep: "eventsFor i (applyOp (ExpirySweep now) w) = eventsFor i w"
  by (simp add: eventsFor_def)

lemma applyOp_triggered:
  assumes "distinct (map aid (alerts w))" "alertById i w = Some b" "isTriggered b"
    "\<not> isUpdate op"
  shows "distinct (map aid (alerts (applyOp op w))) \<and>
         (\<exists>act. alertById i (applyOp op w) = Some (b\<lparr>isActive := act\<rparr>) \<and>
                (isCycle op \<longrightarrow> act = isActive b)) \<and>
         eventsFor i (applyOp op w) = eventsFor i w"
proof (cases op)
  case (RunCycle env now coll)
  have b: "b \<in> set (alerts w)" "aid b = i" using alertById_in_set[OF assms(2)] by simp_all
  have ne: "\<not> eligible now b" using assms(3) by (simp add: eligible_def)
  have "alertById (aid b) (fst (checkAlerts env now coll w)) = Some b"
    using assms(1) b(1) ne by (rule checkAlerts_untouched)
  then have "alertById i (applyOp op w) = Some (b\<lparr>isActive := isActive b\<rparr>)"
    using RunCycle b(2) by simp
  moreover have "eventsFor (aid b) (fst (checkAlerts env now coll w)) = eventsFor (aid b) w"
    using assms(1) b(1) ne by (rule checkAlerts_events_untouched)
  then have "eventsFor i (applyOp op w) = eventsFor i w"
    using RunCycle b(2) by simp
  moreover have "distinct (map aid (alerts (applyOp op w)))"
    using RunCycle assms(1) by (simp add: map_aid_checkAlerts)
  ultimately show ?thesis by blast
next
  case (ExpirySweep now)
  have "alertById i (applyOp op w) =
        Some (b\<lparr>isActive := (if expiredActive now b then False else isActive b)\<rparr>)"
    unfolding ExpirySweep alertById_sweep using assms(2) by simp
  moreover have "distinct (map aid (alerts (applyOp op w)))"
    unfolding ExpirySweep using assms(1) by (simp only: map_aid_sweep)
  moreover have "eventsFor i (applyOp op w) = eventsFor i w"
    unfolding ExpirySweep by (rule eventsFor_sweep)
  moreover have "\<not> isCycle op" using ExpirySweep by simp
  ultimately show ?thesis by blast
next
  case (UpdateAlert x y z)
  then show ?thesis using assms(4) by simp
qed

lemma run_triggered:
  assumes "distinct (map aid (alerts w))" "alertById i w = Some b" "isTriggered b"
    "\<forall>op\<in>set ops. \<not> isUpdate op"
  shows "\<exists>act. alertById i (run ops w) = Some (b\<lparr>isActive := act\<rparr>) \<and>
               ((\<forall>op\<in>set ops. isCycle op) \<longrightarrow> act = isActive b) \<and>
               eventsFor i (run ops w) = eventsFor i w"
  using assms
proof (induction ops arbitrary: w b)
  case Nil
  have "alertById i w = Some (b\<lparr>isActive := isActive b\<rparr>)" using Nil.prems(2) by simp
  then show ?case unfolding run_def by auto
next
  case (Cons op ops)
  have nu: "\<not> isUpdate op" using Cons.prems(4) by simp
  obtain a1 where d1: "distinct (map aid (alerts (applyOp op w)))"
    and b1: "alertById i (applyOp op w) = Some (b\<lparr>isActive := a1\<rparr>)"
      "isCycle op \<longrightarrow> a1 = isActive b"
    and e1: "eventsFor i (applyOp op w) = eventsFor i w"
    using applyOp_triggered[OF Cons.prems(1-3) nu] by blast
  have rest: "\<forall>op\<in>set ops. \<not> isUpdate op" using Cons.prems(4) by simp
  have t1: "isTriggered (b\<lparr>isActive := a1\<rparr>)" using Cons.prems(3) by simp
  obtain a2 where b2:
      "alertById i (run ops (applyOp op w)) = Some (b\<lparr>isActive := a1\<rparr>\<lparr>isActive := a2\<rparr>)"
      "(\<forall>op\<in>set ops. isCycle op) \<longrightarrow> a2 = isActive (b\<lparr>isActive := a1\<rparr>)"
      "eventsFor i (run ops (applyOp op w)) = eventsFor i (applyOp op w)"
    using Cons.IH[OF d1 b1(1) t1 rest] by blast
  have r: "run (op # ops) w = run ops (applyOp op w)" by (simp add: run_def)
  have "alertById i (run (op # ops) w) = Some (b\<lparr>isActive := a2\<rparr>)"
    using b2(1) r by simp
  moreover have "(\<forall>op\<in>set (op # ops). isCycle op) \<longrightarrow> a2 = isActive b"
    using b2(2) b1(2) by simp
  moreover have "eventsFor i (run (op # ops) w) = eventsFor i w"
    using b2(3) e1 r by simp
  ultimately show ?case by blast
qed


section \<open>Examples and event kinds for the claims below\<close>


fun isDispatch :: "event \<Rightarrow> bool" where
  "isDispatch (NotificationDispatched i) = True"
| "isDispatch _ = False"

fun isMailAttempt :: "event \<Rightarrow> bool" where
  "isMailAttempt (MailAttempt i ok) = True"
| "isMailAttempt _ = False"


section \<open>The market data service\<close>

text \<open>
  The object \<open>getMarketData\<close> returns, with the fields the core reads; the
  timestamp is in milliseconds.
\<close>

record quote =
  q_symbol :: string
  q_price :: real
  q_change :: real
  q_changePercent :: real
  q_volume :: real
  q_timestamp :: int
  q_source :: string

text \<open>
  The state of the service: the in-memory cache, the \<open>MarketData\<close> collection and
  a count of the calls made to the upstream providers.
\<close>

record cache_entry =
  ce_data :: quote
  ce_timestamp :: int

record md_state =
  cache :: "string \<Rightarrow> cache_entry option"
  database :: "market_data list"
  upstreamCalls :: nat

text \<open>
  What a call depends on besides the state: the clock, whether the database answers,
  and what the two provider functions return for a symbol. \<open>fetchFromYahoo\<close> and
  \<open>fetchFromAlphaVantage\<close> catch every error of theirs and return \<open>null\<close>, here
  \<open>None\<close>.
\<close>

record md_env =
  dateNow :: int
  dbAvailable :: bool
  fetchFromYahoo :: "string \<Rightarrow> quote option"
  fetchFromAlphaVantage :: "string \<Rightarrow> quote option"

datatype md_error = DatabaseError | TypeError

definition cacheTimeout :: int where
  "cacheTimeout = 60000"

text \<open>\<open>MarketData.getLatest\<close>: the newest active document of the symbol.\<close>

definition getLatest :: "market_data list \<Rightarrow> string \<Rightarrow> market_data option" where
  "getLatest coll symb =
     (case sort_key (\<lambda>d. - md_lastUpdated d)
             (filter (\<lambda>d. md_symbol d = toUpperCase symb \<and> md_isActive d) coll) of
        [] \<Rightarrow> None
      | d # ds \<Rightarrow> Some d)"

definition formatMarketData :: "market_data \<Rightarrow> quote" where
  "formatMarketData dbData =
     \<lparr>q_symbol = md_symbol dbData, q_price = md_price dbData, q_change = md_change dbData,
      q_changePercent = md_changePercent dbData, q_volume = md_volume dbData,
      q_timestamp = md_lastUpdated dbData, q_source = md_source dbData\<rparr>"

definition upstreamCall :: "md_state \<Rightarrow> md_state" where
  "upstreamCall st = st\<lparr>upstreamCalls := upstreamCalls st + 1\<rparr>"

definition fetchFromExternalAPI :: "md_env \<Rightarrow> string \<Rightarrow> md_state \<Rightarrow> quote option \<times> md_state" where
  "fetchFromExternalAPI env symb st =
     (case fetchFromYahoo env symb of
        Some yahooData \<Rightarrow> (Some yahooData, upstreamCall st)
      | None \<Rightarrow>
          (case fetchFromAlphaVantage env symb of
             Some alphaData \<Rightarrow> (Some alphaData, upstreamCall (upstreamCall st))
           | None \<Rightarrow> (None, upstreamCall (upstreamCall st))))"

text \<open>
  \<open>saveMarketData\<close>: an upsert by symbol; it catches a database error and goes on.
\<close>

definition quoteDoc :: "int \<Rightarrow> quote \<Rightarrow> market_data" where
  "quoteDoc now q =
     \<lparr>md_symbol = q_symbol q, md_price = q_price q, md_change = q_change q,
      md_changePercent = q_changePercent q, md_volume = q_volume q, md_lastUpdated = now,
      md_source = q_source q, md_isActive = True\<rparr>"

fun upsert :: "market_data \<Rightarrow> market_data list \<Rightarrow> market_data list" where
  "upsert d [] = [d]"
| "upsert d (x # xs) = (if md_symbol x = md_symbol d then d # xs else x # upsert d xs)"

definition saveMarketData :: "md_env \<Rightarrow> quote \<Rightarrow> md_state \<Rightarrow> md_state" where
  "saveMarketData env q st =
     (if dbAvailable env then st\<lparr>database := upsert (quoteDoc (dateNow env) q) (database st)\<rparr>
      else st)"

definition cacheKey :: "string \<Rightarrow> string" where
  "cacheKey symb = ''market_'' @ symb"

definition cacheSet :: "string \<Rightarrow> quote \<Rightarrow> int \<Rightarrow> md_state \<Rightarrow> md_state" where
  "cacheSet k q now st = st\<lparr>cache := (cache st)(k \<mapsto> \<lparr>ce_data = q, ce_timestamp = now\<rparr>)\<rparr>"

text \<open>The first \<open>if\<close> of \<open>getMarketData\<close>: an entry younger than the timeout.\<close>

definition freshCached :: "md_env \<Rightarrow> string \<Rightarrow> bool \<Rightarrow> md_state \<Rightarrow> quote option" where
  "freshCached env symb useCache st =
     (if useCache then
        (case cache st (cacheKey symb) of
           None \<Rightarrow> None
         | Some cached \<Rightarrow>
             if dateNow env - ce_timestamp cached < cacheTimeout then Some (ce_data cached)
             else None)
      else None)"

text \<open>
  The \<open>try\<close> block of \<open>getMarketData\<close>. \<open>Inl\<close> is a thrown error, \<open>Inr None\<close> is
  the returned \<open>null\<close>. Only the database read can throw.
\<close>

definition getMarketData_try ::
  "md_env \<Rightarrow> string \<Rightarrow> md_state \<Rightarrow> (md_error + quote option) \<times> md_state" where
  "getMarketData_try env symb st =
     (if \<not> dbAvailable env then (Inl DatabaseError, st)
      else
        let dbData = getLatest (database st) symb in
        case (case dbData of
                None \<Rightarrow> None
              | Some d \<Rightarrow> if dateNow env - md_lastUpdated d < cacheTimeout then Some d else None) of
          Some d \<Rightarrow>
            (Inr (Some (formatMarketData d)),
             cacheSet (cacheKey symb) (formatMarketData d) (dateNow env) st)
        | None \<Rightarrow>
            (case fetchFromExternalAPI env symb st of
               (Some freshData, st1) \<Rightarrow>
                 (Inr (Some freshData),
                  cacheSet (cacheKey symb) freshData (dateNow env)
                    (saveMarketData env freshData st1))
             | (None, st1) \<Rightarrow> (Inr (map_option formatMarketData dbData), st1)))"

text \<open>The whole function, with the \<open>catch\<close> block: cached data if there is any.\<close>

definition getMarketData ::
  "md_env \<Rightarrow> string \<Rightarrow> bool \<Rightarrow> md_state \<Rightarrow> (md_error + quote option) \<times> md_state" where
  "getMarketData env symb useCache st =
     (case freshCached env symb useCache st of
        Some data \<Rightarrow> (Inr (Some data), st)
      | None \<Rightarrow>
          (case getMarketData_try env symb st of
             (Inl err, st') \<Rightarrow>
               (case cache st' (cacheKey symb) of
                  Some cached \<Rightarrow> (Inr (Some (ce_data cached)), st')
                | None \<Rightarrow> (Inl err, st'))
           | (Inr r, st') \<Rightarrow> (Inr r, st')))"


text \<open>
  \<open>getBatchMarketData\<close>. Each call is wrapped in a \<open>catch\<close> that turns a thrown
  error into the object \<open>{symbol, error}\<close>; the calls are modelled in the order of
  the list. The \<open>forEach\<close> reads \<open>result.error\<close>, which throws a \<open>TypeError\<close> on
  a \<open>null\<close> result; the message of a caught error is not empty, so it is truthy.
\<close>

datatype batch_result = Resolved "quote option" | Caught string string

datatype batch_entry = Success quote | Error string

definition errorMessage :: "md_error \<Rightarrow> string" where
  "errorMessage e = (case e of DatabaseError \<Rightarrow> ''database read failed''
                     | TypeError \<Rightarrow> ''Cannot read properties of null'')"

fun getBatch_results ::
  "md_env \<Rightarrow> string list \<Rightarrow> md_state \<Rightarrow> batch_result list \<times> md_state" where
  "getBatch_results env [] st = ([], st)"
| "getBatch_results env (symb # rest) st =
     (case getMarketData env symb True st of
        (r, st') \<Rightarrow>
          (case getBatch_results env rest st' of
             (rs, st'') \<Rightarrow>
               ((case r of Inl err \<Rightarrow> Caught symb (errorMessage err) | Inr x \<Rightarrow> Resolved x) # rs,
                st'')))"

fun getBatch_collect ::
  "batch_result list \<Rightarrow> (string \<Rightarrow> batch_entry option) \<Rightarrow> md_error + (string \<Rightarrow> batch_entry option)" where
  "getBatch_collect [] data = Inr data"
| "getBatch_collect (Resolved None # rs) data = Inl TypeError"
| "getBatch_collect (Resolved (Some q) # rs) data =
     getBatch_collect rs (data(q_symbol q \<mapsto> Success q))"
| "getBatch_collect (Caught symb msg # rs) data =
     getBatch_collect rs (data(symb \<mapsto> Error msg))"

definition getBatchMarketData ::
  "md_env \<Rightarrow> string list \<Rightarrow> md_state
     \<Rightarrow> (md_error + (string \<Rightarrow> batch_entry option)) \<times> md_state" where
  "getBatchMarketData env symbols st =
     (case getBatch_results env symbols st of
        (results, st') \<Rightarrow> (getBatch_collect results Map.empty, st'))"

text \<open>Concrete inputs for the examples below.\<close>

definition ex_q :: "string \<Rightarrow> quote" where
  "ex_q s = \<lparr>q_symbol = s, q_price = 100, q_change = 1, q_changePercent = 1, q_volume = 10,
             q_timestamp = 0, q_source = ''yahoo_finance''\<rparr>"

definition ex_md_env :: "bool \<Rightarrow> (string \<Rightarrow> quote option) \<Rightarrow> md_env" where
  "ex_md_env up yahoo =
     \<lparr>dateNow = 100000, dbAvailable = up, fetchFromYahoo = yahoo,
      fetchFromAlphaVantage = (\<lambda>s. None)\<rparr>"

definition ex_stale_state :: md_state where
  "ex_stale_state =
     \<lparr>cache = [cacheKey ''TCS'' \<mapsto> \<lparr>ce_data = ex_q ''TCS'', ce_timestamp = 0\<rparr>],
      database = [], upstreamCalls = 0\<rparr>"

definition ex_empty_state :: md_state where
  "ex_empty_state = \<lparr>cache = Map.empty, database = [], upstreamCalls = 0\<rparr>"

definition ex_stale_doc :: market_data where
  "ex_stale_doc = (ex_quote 90 0 0)\<lparr>md_lastUpdated := 1000\<rparr>"

lemmas md_defs = upstreamCall_def getMarketData_def getMarketData_try_def freshCached_def cacheKey_def
  cacheTimeout_def getLatest_def fetchFromExternalAPI_def formatMarketData_def
  saveMarketData_def cacheSet_def quoteDoc_def ex_q_def ex_md_env_def ex_stale_state_def
  ex_empty_state_def ex_stale_doc_def ex_quote_def toUpperCase_def toUpperChar_def

section \<open>Claims about the market data service\<close>

text \<open>
  C5, as stated, fails: with a stale in-memory entry, a database that answers and has
  no record, and both providers failing, \<open>getMarketData\<close> returns \<open>null\<close>: not the
  stale entry, and not an error. Without the stale entry it returns \<open>null\<close> too.
\<close>

theorem C5_counterexample:
  "freshCached (ex_md_env True (\<lambda>s. None)) ''TCS'' True ex_stale_state = None \<and>
   cache ex_stale_state (cacheKey ''TCS'')
     = Some \<lparr>ce_data = ex_q ''TCS'', ce_timestamp = 0\<rparr> \<and>
   getLatest (database ex_stale_state) ''TCS'' = None \<and>
   fst (fetchFromExternalAPI (ex_md_env True (\<lambda>s. None)) ''TCS'' ex_stale_state) = None \<and>
   fst (getMarketData (ex_md_env True (\<lambda>s. None)) ''TCS'' True ex_stale_state) = Inr None \<and>
   fst (getMarketData (ex_md_env True (\<lambda>s. None)) ''TCS'' True ex_empty_state) = Inr None"
  by (simp add: md_defs)

text \<open>
  C5 (amended). For every call in which the cache has no fresh entry and both
  providers fail: when the database read succeeds and finds no fresh record, the
  call returns the stale database record if there is one and \<open>null\<close> otherwise,
  after two provider calls; when the database read fails, the call returns the
  in-memory entry if there is one and fails with the database error otherwise.
\<close>

theorem C5_all_sources_fail:
  assumes "freshCached env symb useCache st = None"
    and "fetchFromYahoo env symb = None" and "fetchFromAlphaVantage env symb = None"
  shows "(dbAvailable env \<and>
            (\<forall>d. getLatest (database st) symb = Some d \<longrightarrow>
                 \<not> dateNow env - md_lastUpdated d < cacheTimeout) \<longrightarrow>
            getMarketData env symb useCache st
              = (Inr (map_option formatMarketData (getLatest (database st) symb)),
                 upstreamCall (upstreamCall st))) \<and>
         (\<not> dbAvailable env \<longrightarrow>
            getMarketData env symb useCache st
              = ((case cache st (cacheKey symb) of
                    Some cached \<Rightarrow> Inr (Some (ce_data cached))
                  | None \<Rightarrow> Inl DatabaseError), st))"
  using assms
  by (auto simp: getMarketData_def getMarketData_try_def fetchFromExternalAPI_def Let_def
      split: option.splits)

theorem C5_all_sources_fail_witness:
  "getMarketData (ex_md_env True (\<lambda>s. None)) ''TCS'' True
       (ex_stale_state\<lparr>database := [ex_stale_doc]\<rparr>)
     = (Inr (Some (formatMarketData ex_stale_doc)),
        ex_stale_state\<lparr>database := [ex_stale_doc], upstreamCalls := 2\<rparr>) \<and>
   fst (getMarketData (ex_md_env False (\<lambda>s. None)) ''TCS'' True ex_stale_state)
     = Inr (Some (ex_q ''TCS'')) \<and>
   fst (getMarketData (ex_md_env False (\<lambda>s. None)) ''TCS'' True ex_empty_state)
     = Inl DatabaseError"
proof -
  let ?st = "ex_stale_state\<lparr>database := [ex_stale_doc]\<rparr>"
  let ?up = "ex_md_env True (\<lambda>s. None)"
  let ?down = "ex_md_env False (\<lambda>s. None)"
  have f1: "freshCached ?up ''TCS'' True ?st = None"
    and f2: "freshCached ?down ''TCS'' True ex_stale_state = None"
    and f3: "freshCached ?down ''TCS'' True ex_empty_state = None"
    by (simp_all add: md_defs)
  have y: "fetchFromYahoo ?up ''TCS'' = None" "fetchFromAlphaVantage ?up ''TCS'' = None"
    "fetchFromYahoo ?down ''TCS'' = None" "fetchFromAlphaVantage ?down ''TCS'' = None"
    by (simp_all add: md_defs)
  have g: "getLatest (database ?st) ''TCS'' = Some ex_stale_doc"
    by (simp add: md_defs)
  have s: "\<not> dateNow ?up - md_lastUpdated ex_stale_doc < cacheTimeout"
    by (simp add: md_defs)
  have u: "dbAvailable ?up" "\<not> dbAvailable ?down"
    by (simp_all add: md_defs)
  have c: "cache ex_stale_state (cacheKey ''TCS'')
             = Some \<lparr>ce_data = ex_q ''TCS'', ce_timestamp = 0\<rparr>"
      "cache ex_empty_state (cacheKey ''TCS'') = None"
    by (simp_all add: md_defs)
  show ?thesis
    using C5_all_sources_fail[OF f1 y(1,2)] C5_all_sources_fail[OF f2 y(3,4)]
      C5_all_sources_fail[OF f3 y(3,4)] g s u c
    by (simp add: upstreamCall_def ex_stale_state_def)
qed

text \<open>
  C6 says that a batch returns one entry per symbol and that a failed fetch for one
  symbol leaves the successful results of the others in place. The code breaks it on
  a batch of \<open>A\<close>, \<open>B\<close>, \<open>C\<close> with an empty cache and database, where the
  providers answer for \<open>A\<close> and \<open>C\<close> and fail for \<open>B\<close>: the single calls
  succeed for \<open>A\<close> and \<open>C\<close> and return \<open>null\<close> for \<open>B\<close>, and the batch as
  a whole fails with a \<open>TypeError\<close>.
\<close>

theorem C6_batch_rejects_on_null:
  "fst (getMarketData (ex_md_env True (\<lambda>s. if s = ''B'' then None else Some (ex_q s)))
          ''A'' True ex_empty_state) = Inr (Some (ex_q ''A'')) \<and>
   fst (getMarketData (ex_md_env True (\<lambda>s. if s = ''B'' then None else Some (ex_q s)))
          ''B'' True ex_empty_state) = Inr None \<and>
   fst (getMarketData (ex_md_env True (\<lambda>s. if s = ''B'' then None else Some (ex_q s)))
          ''C'' True ex_empty_state) = Inr (Some (ex_q ''C'')) \<and>
   fst (getBatchMarketData (ex_md_env True (\<lambda>s. if s = ''B'' then None else Some (ex_q s)))
          [''A'', ''B'', ''C''] ex_empty_state) = Inl TypeError"
  by (simp add: md_defs getBatchMarketData_def)

section \<open>The WebSocket service\<close>

text \<open>
  A socket carries the user id the authentication middleware has set, if any. The
  state is the room membership kept by socket.io, restricted to the symbol rooms,
  and the map \<open>connectedUsers\<close> with the \<open>subscriptions\<close> set of each entry; the
  map and the sets keep insertion order, as in JavaScript.
\<close>

record ws_socket =
  sock_id :: nat
  sock_userId :: "nat option"

record user_conn =
  uc_socketId :: nat
  uc_subscriptions :: "string list"

record ws_state =
  rooms :: "(string \<times> ws_socket) list"
  connectedUsers :: "(nat \<times> user_conn) list"

text \<open>
  What the service sends: to a room, an object with one key and its value (which is
  \<open>undefined\<close>, here \<open>None\<close>, when the batch has no such key); to one socket, the
  whole batch.
\<close>

datatype emission =
    EmitToRoom string string "batch_entry option"
  | EmitToSocket nat "string \<Rightarrow> batch_entry option"

definition setAdd :: "'a \<Rightarrow> 'a list \<Rightarrow> 'a list" where
  "setAdd x xs = (if x \<in> set xs then xs else xs @ [x])"

definition setDelete :: "'a \<Rightarrow> 'a list \<Rightarrow> 'a list" where
  "setDelete x xs = filter (\<lambda>y. y \<noteq> x) xs"

fun mapSet :: "'k \<Rightarrow> 'v \<Rightarrow> ('k \<times> 'v) list \<Rightarrow> ('k \<times> 'v) list" where
  "mapSet k v [] = [(k, v)]"
| "mapSet k v (p # m) = (if fst p = k then (k, v) # m else p # mapSet k v m)"

definition mapDelete :: "'k \<Rightarrow> ('k \<times> 'v) list \<Rightarrow> ('k \<times> 'v) list" where
  "mapDelete k m = filter (\<lambda>p. fst p \<noteq> k) m"

definition marketRoom :: "string \<Rightarrow> string" where
  "marketRoom symb = ''market_'' @ toUpperCase symb"

text \<open>The \<open>connection\<close> handler: only a socket with a user id is recorded.\<close>

definition onConnection :: "ws_socket \<Rightarrow> ws_state \<Rightarrow> ws_state" where
  "onConnection sock st =
     (case sock_userId sock of
        None \<Rightarrow> st
      | Some u \<Rightarrow>
          st\<lparr>connectedUsers :=
               mapSet u \<lparr>uc_socketId = sock_id sock, uc_subscriptions = []\<rparr> (connectedUsers st)\<rparr>)"

text \<open>
  One round of the \<open>forEach\<close> of \<open>handleMarketDataSubscription\<close>: the socket joins
  the room; the symbol is recorded only for a socket with a user id whose entry
  exists.
\<close>

definition subscribeOne :: "ws_socket \<Rightarrow> string \<Rightarrow> ws_state \<Rightarrow> ws_state" where
  "subscribeOne sock symb st =
     (let st1 = st\<lparr>rooms := setAdd (marketRoom symb, sock) (rooms st)\<rparr> in
      case sock_userId sock of
        None \<Rightarrow> st1
      | Some u \<Rightarrow>
          (case map_of (connectedUsers st1) u of
             None \<Rightarrow> st1
           | Some usr \<Rightarrow>
               st1\<lparr>connectedUsers :=
                     mapSet u (usr\<lparr>uc_subscriptions :=
                                     setAdd (toUpperCase symb) (uc_subscriptions usr)\<rparr>)
                       (connectedUsers st1)\<rparr>))"

definition unsubscribeOne :: "ws_socket \<Rightarrow> string \<Rightarrow> ws_state \<Rightarrow> ws_state" where
  "unsubscribeOne sock symb st =
     (let st1 = st\<lparr>rooms := setDelete (marketRoom symb, sock) (rooms st)\<rparr> in
      case sock_userId sock of
        None \<Rightarrow> st1
      | Some u \<Rightarrow>
          (case map_of (connectedUsers st1) u of
             None \<Rightarrow> st1
           | Some usr \<Rightarrow>
               st1\<lparr>connectedUsers :=
                     mapSet u (usr\<lparr>uc_subscriptions :=
                                     setDelete (toUpperCase symb) (uc_subscriptions usr)\<rparr>)
                       (connectedUsers st1)\<rparr>))"

definition sendCurrentMarketData ::
  "md_env \<Rightarrow> ws_socket \<Rightarrow> string list \<Rightarrow> md_state \<Rightarrow> emission list \<times> md_state" where
  "sendCurrentMarketData env sock symbols mst =
     (case getBatchMarketData env symbols mst of
        (Inl err, mst') \<Rightarrow> ([], mst')
      | (Inr marketData, mst') \<Rightarrow> ([EmitToSocket (sock_id sock) marketData], mst'))"

definition handleMarketDataSubscription ::
  "md_env \<Rightarrow> ws_socket \<Rightarrow> string list \<Rightarrow> ws_state \<times> md_state
     \<Rightarrow> ws_state \<times> emission list \<times> md_state" where
  "handleMarketDataSubscription env sock symbols s =
     (fold (subscribeOne sock) symbols (fst s),
      sendCurrentMarketData env sock symbols (snd s))"

definition handleMarketDataUnsubscription :: "ws_socket \<Rightarrow> string list \<Rightarrow> ws_state \<Rightarrow> ws_state" where
  "handleMarketDataUnsubscription sock symbols st = fold (unsubscribeOne sock) symbols st"

text \<open>
  On disconnect socket.io takes the socket out of its rooms, and the handler deletes
  the entry of the socket's user.
\<close>

definition handleDisconnection :: "ws_socket \<Rightarrow> ws_state \<Rightarrow> ws_state" where
  "handleDisconnection sock st =
     (let st1 = st\<lparr>rooms := filter (\<lambda>p. snd p \<noteq> sock) (rooms st)\<rparr> in
      case sock_userId sock of
        None \<Rightarrow> st1
      | Some u \<Rightarrow> st1\<lparr>connectedUsers := mapDelete u (connectedUsers st1)\<rparr>)"

definition broadcastMarketDataUpdate ::
  "md_env \<Rightarrow> string list \<Rightarrow> md_state \<Rightarrow> emission list \<times> md_state" where
  "broadcastMarketDataUpdate env symbols mst =
     (case getBatchMarketData env symbols mst of
        (Inl err, mst') \<Rightarrow> ([], mst')
      | (Inr marketData, mst') \<Rightarrow>
          (map (\<lambda>symb. EmitToRoom (marketRoom symb) (toUpperCase symb)
                         (marketData (toUpperCase symb))) symbols,
           mst'))"

text \<open>The callback of \<open>marketDataInterval\<close> in \<open>startPeriodicUpdates\<close>.\<close>

definition subscribedSymbols :: "ws_state \<Rightarrow> string list" where
  "subscribedSymbols st =
     fold (\<lambda>p acc. fold setAdd (uc_subscriptions (snd p)) acc) (connectedUsers st) []"

definition marketDataTick :: "md_env \<Rightarrow> ws_state \<Rightarrow> md_state \<Rightarrow> emission list \<times> md_state" where
  "marketDataTick env st mst =
     (let symbols = subscribedSymbols st in
      if length symbols > 0 then broadcastMarketDataUpdate env symbols mst else ([], mst))"

text \<open>The states the service reaches from its start by socket events.\<close>

datatype ws_event =
    Connect ws_socket
  | Subscribe ws_socket "string list"
  | Unsubscribe ws_socket "string list"
  | Disconnect ws_socket

fun wsStep :: "ws_event \<Rightarrow> ws_state \<Rightarrow> ws_state" where
  "wsStep (Connect sock) st = onConnection sock st"
| "wsStep (Subscribe sock symbols) st = fold (subscribeOne sock) symbols st"
| "wsStep (Unsubscribe sock symbols) st = handleMarketDataUnsubscription sock symbols st"
| "wsStep (Disconnect sock) st = handleDisconnection sock st"

definition wsInit :: ws_state where
  "wsInit = \<lparr>rooms = [], connectedUsers = []\<rparr>"

definition wsRun :: "ws_event list \<Rightarrow> ws_state" where
  "wsRun evs = fold wsStep evs wsInit"


section \<open>Recorded subscriptions are backed by joined rooms\<close>

text \<open>
  In every reachable state each recorded subscription of a user is backed by a socket
  of that user in the symbol's room.
\<close>

definition supported :: "ws_state \<Rightarrow> nat \<Rightarrow> string \<Rightarrow> bool" where
  "supported st u s =
     (\<exists>sock. (''market_'' @ s, sock) \<in> set (rooms st) \<and> sock_userId sock = Some u)"

definition wsInv :: "ws_state \<Rightarrow> bool" where
  "wsInv st =
     (distinct (map fst (connectedUsers st)) \<and>
      (\<forall>p\<in>set (connectedUsers st). \<forall>s\<in>set (uc_subscriptions (snd p)).
         supported st (fst p) s))"

lemma map_fst_mapSet:
  "map fst (mapSet k v m) = (if k \<in> fst ` set m then map fst m else map fst m @ [k])"
  by (induction m) auto

lemma distinct_mapSet: "distinct (map fst m) \<Longrightarrow> distinct (map fst (mapSet k v m))"
  by (auto simp: map_fst_mapSet)

lemma set_mapSet:
  "distinct (map fst m) \<Longrightarrow> set (mapSet k v m) = insert (k, v) {p \<in> set m. fst p \<noteq> k}"
  by (induction m) (auto simp: rev_image_eqI)

lemma set_setAdd: "set (setAdd x xs) = insert x (set xs)"
  by (auto simp: setAdd_def)

lemma set_setDelete: "set (setDelete x xs) = set xs - {x}"
  by (auto simp: setDelete_def)

lemma supported_mono:
  "supported st u s \<Longrightarrow> set (rooms st) \<subseteq> set (rooms st') \<Longrightarrow> supported st' u s"
  unfolding supported_def by blast

lemma wsInv_onConnection:
  assumes "wsInv st"
  shows "wsInv (onConnection sock st)"
proof (cases "sock_userId sock")
  case None
  then show ?thesis using assms by (simp add: onConnection_def)
next
  case (Some u)
  let ?st' = "onConnection sock st"
  have d: "distinct (map fst (connectedUsers st))" using assms by (simp add: wsInv_def)
  have cu: "set (connectedUsers ?st') =
        insert (u, \<lparr>uc_socketId = sock_id sock, uc_subscriptions = []\<rparr>)
          {p \<in> set (connectedUsers st). fst p \<noteq> u}"
    using Some d by (simp add: onConnection_def set_mapSet)
  have r: "rooms ?st' = rooms st" using Some by (simp add: onConnection_def)
  have "distinct (map fst (connectedUsers ?st'))"
    using Some d by (simp add: onConnection_def distinct_mapSet)
  moreover have "\<forall>p\<in>set (connectedUsers ?st'). \<forall>s\<in>set (uc_subscriptions (snd p)).
      supported ?st' (fst p) s"
    using assms unfolding cu wsInv_def supported_def r by auto
  ultimately show ?thesis unfolding wsInv_def by blast
qed

lemma wsInv_subscribeOne:
  assumes "wsInv st"
  shows "wsInv (subscribeOne sock symb st)"
proof -
  let ?st' = "subscribeOne sock symb st"
  have d: "distinct (map fst (connectedUsers st))" using assms by (simp add: wsInv_def)
  have old: "\<And>p s. p \<in> set (connectedUsers st) \<Longrightarrow> s \<in> set (uc_subscriptions (snd p))
      \<Longrightarrow> supported st (fst p) s"
    using assms by (simp add: wsInv_def)
  have r: "set (rooms ?st') = insert (marketRoom symb, sock) (set (rooms st))"
    by (simp add: subscribeOne_def Let_def set_setAdd split: option.splits)
  then have sub: "set (rooms st) \<subseteq> set (rooms ?st')" by blast
  show ?thesis
  proof (cases "sock_userId sock")
    case None
    then have "connectedUsers ?st' = connectedUsers st"
      by (simp add: subscribeOne_def Let_def)
    then show ?thesis
      unfolding wsInv_def using d old supported_mono[OF _ sub] by auto
  next
    case (Some u)
    show ?thesis
    proof (cases "map_of (connectedUsers st) u")
      case None
      then have "connectedUsers ?st' = connectedUsers st"
        using Some by (simp add: subscribeOne_def Let_def)
      then show ?thesis
        unfolding wsInv_def using d old supported_mono[OF _ sub] by auto
    next
      case (Some usr)
      let ?usr' = "usr\<lparr>uc_subscriptions := setAdd (toUpperCase symb) (uc_subscriptions usr)\<rparr>"
      have mem: "(u, usr) \<in> set (connectedUsers st)" using Some by (rule map_of_SomeD)
      have cu: "connectedUsers ?st' = mapSet u ?usr' (connectedUsers st)"
        using Some \<open>sock_userId sock = Some u\<close> by (simp add: subscribeOne_def Let_def)
      have cus: "set (connectedUsers ?st') =
          insert (u, ?usr') {p \<in> set (connectedUsers st). fst p \<noteq> u}"
        unfolding cu using d by (rule set_mapSet)
      have new: "supported ?st' u (toUpperCase symb)"
        unfolding supported_def using r \<open>sock_userId sock = Some u\<close>
        by (auto simp: marketRoom_def)
      have "\<forall>p\<in>set (connectedUsers ?st'). \<forall>s\<in>set (uc_subscriptions (snd p)).
          supported ?st' (fst p) s"
      proof (intro ballI)
        fix p s assume p: "p \<in> set (connectedUsers ?st')" and s: "s \<in> set (uc_subscriptions (snd p))"
        show "supported ?st' (fst p) s"
        proof (cases "p = (u, ?usr')")
          case True
          then have "s = toUpperCase symb \<or> s \<in> set (uc_subscriptions usr)"
            using s by (simp add: set_setAdd)
          then show ?thesis
            using new old[OF mem] supported_mono[OF _ sub] True by auto
        next
          case False
          then have "p \<in> set (connectedUsers st)" using p cus by auto
          then show ?thesis using old s supported_mono[OF _ sub] by blast
        qed
      qed
      moreover have "distinct (map fst (connectedUsers ?st'))"
        unfolding cu using d by (rule distinct_mapSet)
      ultimately show ?thesis unfolding wsInv_def by blast
    qed
  qed
qed


lemma supported_keep:
  assumes "supported st u s"
    and "\<And>sock. (''market_'' @ s, sock) \<in> set (rooms st) \<Longrightarrow> sock_userId sock = Some u
           \<Longrightarrow> (''market_'' @ s, sock) \<in> set (rooms st')"
  shows "supported st' u s"
  using assms unfolding supported_def by blast

lemma wsInv_unsubscribeOne:
  assumes "wsInv st"
  shows "wsInv (unsubscribeOne sock symb st)"
proof -
  let ?st' = "unsubscribeOne sock symb st"
  let ?S = "toUpperCase symb"
  have d: "distinct (map fst (connectedUsers st))" using assms by (simp add: wsInv_def)
  have old: "\<And>p s. p \<in> set (connectedUsers st) \<Longrightarrow> s \<in> set (uc_subscriptions (snd p))
      \<Longrightarrow> supported st (fst p) s"
    using assms by (simp add: wsInv_def)
  have r: "set (rooms ?st') = set (rooms st) - {(''market_'' @ ?S, sock)}"
    by (simp add: unsubscribeOne_def Let_def set_setDelete marketRoom_def split: option.splits)
  have keep: "supported ?st' v s" if "supported st v s" "s \<noteq> ?S \<or> sock_userId sock \<noteq> Some v"
    for v s
    using that(1)
  proof (rule supported_keep)
    fix sock' assume "(''market_'' @ s, sock') \<in> set (rooms st)" "sock_userId sock' = Some v"
    then show "(''market_'' @ s, sock') \<in> set (rooms ?st')"
      using that(2) r by auto
  qed
  show ?thesis
  proof (cases "sock_userId sock")
    case None
    then have "connectedUsers ?st' = connectedUsers st"
      by (simp add: unsubscribeOne_def Let_def)
    then show ?thesis
      unfolding wsInv_def using d old keep None by auto
  next
    case (Some u)
    show ?thesis
    proof (cases "map_of (connectedUsers st) u")
      case None
      then have same: "connectedUsers ?st' = connectedUsers st"
        using Some by (simp add: unsubscribeOne_def Let_def)
      have nu: "\<And>p. p \<in> set (connectedUsers st) \<Longrightarrow> fst p \<noteq> u"
        using None by (metis domIff dom_map_of_conv_image_fst imageI)
      have "\<forall>p\<in>set (connectedUsers st). \<forall>s\<in>set (uc_subscriptions (snd p)).
          supported ?st' (fst p) s"
      proof (intro ballI)
        fix p s assume p: "p \<in> set (connectedUsers st)" and s: "s \<in> set (uc_subscriptions (snd p))"
        have "sock_userId sock \<noteq> Some (fst p)" using nu[OF p] Some by simp
        then show "supported ?st' (fst p) s" using keep old[OF p s] by blast
      qed
      then show ?thesis
        unfolding wsInv_def same using d by blast
    next
      case (Some usr)
      let ?usr' = "usr\<lparr>uc_subscriptions := setDelete ?S (uc_subscriptions usr)\<rparr>"
      have mem: "(u, usr) \<in> set (connectedUsers st)" using Some by (rule map_of_SomeD)
      have cu: "connectedUsers ?st' = mapSet u ?usr' (connectedUsers st)"
        using Some \<open>sock_userId sock = Some u\<close> by (simp add: unsubscribeOne_def Let_def)
      have cus: "set (connectedUsers ?st') =
          insert (u, ?usr') {p \<in> set (connectedUsers st). fst p \<noteq> u}"
        unfolding cu using d by (rule set_mapSet)
      have "\<forall>p\<in>set (connectedUsers ?st'). \<forall>s\<in>set (uc_subscriptions (snd p)).
          supported ?st' (fst p) s"
      proof (intro ballI)
        fix p s assume p: "p \<in> set (connectedUsers ?st')" and s: "s \<in> set (uc_subscriptions (snd p))"
        show "supported ?st' (fst p) s"
        proof (cases "p = (u, ?usr')")
          case True
          then have "s \<noteq> ?S" "s \<in> set (uc_subscriptions usr)"
            using s by (simp_all add: set_setDelete)
          then show ?thesis
            using old[OF mem] keep True by auto
        next
          case False
          then have "p \<in> set (connectedUsers st)" "fst p \<noteq> u" using p cus by auto
          then show ?thesis using old s keep \<open>sock_userId sock = Some u\<close> by auto
        qed
      qed
      moreover have "distinct (map fst (connectedUsers ?st'))"
        unfolding cu using d by (rule distinct_mapSet)
      ultimately show ?thesis unfolding wsInv_def by blast
    qed
  qed
qed

lemma wsInv_handleDisconnection:
  assumes "wsInv st"
  shows "wsInv (handleDisconnection sock st)"
proof -
  let ?st' = "handleDisconnection sock st"
  have d: "distinct (map fst (connectedUsers st))" using assms by (simp add: wsInv_def)
  have old: "\<And>p s. p \<in> set (connectedUsers st) \<Longrightarrow> s \<in> set (uc_subscriptions (snd p))
      \<Longrightarrow> supported st (fst p) s"
    using assms by (simp add: wsInv_def)
  have r: "set (rooms ?st') = {p \<in> set (rooms st). snd p \<noteq> sock}"
    by (auto simp: handleDisconnection_def Let_def split: option.splits)
  have keep: "supported ?st' v s" if "supported st v s" "sock_userId sock \<noteq> Some v" for v s
    using that(1)
  proof (rule supported_keep)
    fix sock' assume "(''market_'' @ s, sock') \<in> set (rooms st)" "sock_userId sock' = Some v"
    then show "(''market_'' @ s, sock') \<in> set (rooms ?st')"
      using that(2) r by auto
  qed
  show ?thesis
  proof (cases "sock_userId sock")
    case None
    then have "connectedUsers ?st' = connectedUsers st"
      by (simp add: handleDisconnection_def Let_def)
    then show ?thesis
      unfolding wsInv_def using d old keep None by auto
  next
    case (Some u)
    then have cu: "connectedUsers ?st' = filter (\<lambda>p. fst p \<noteq> u) (connectedUsers st)"
      by (simp add: handleDisconnection_def Let_def mapDelete_def)
    have "distinct (map fst (connectedUsers ?st'))"
      unfolding cu using d by (simp add: distinct_map_filter)
    moreover have "\<forall>p\<in>set (connectedUsers ?st'). \<forall>s\<in>set (uc_subscriptions (snd p)).
          supported ?st' (fst p) s"
      unfolding cu using old keep Some by auto
    ultimately show ?thesis unfolding wsInv_def by blast
  qed
qed

lemma wsInv_wsStep: "wsInv st \<Longrightarrow> wsInv (wsStep ev st)"
proof (cases ev)
  case (Connect sock)
  assume "wsInv st"
  then show ?thesis unfolding Connect by (simp add: wsInv_onConnection)
next
  case (Subscribe sock symbols)
  assume "wsInv st"
  then have "wsInv (fold (subscribeOne sock) symbols st)"
    by (induction symbols arbitrary: st) (simp_all add: wsInv_subscribeOne)
  then show ?thesis unfolding Subscribe by simp
next
  case (Unsubscribe sock symbols)
  assume "wsInv st"
  then have "wsInv (fold (unsubscribeOne sock) symbols st)"
    by (induction symbols arbitrary: st) (simp_all add: wsInv_unsubscribeOne)
  then show ?thesis unfolding Unsubscribe by (simp add: handleMarketDataUnsubscription_def)
next
  case (Disconnect sock)
  assume "wsInv st"
  then show ?thesis unfolding Disconnect by (simp add: wsInv_handleDisconnection)
qed

lemma wsInv_fold: "wsInv st \<Longrightarrow> wsInv (fold wsStep evs st)"
  by (induction evs arbitrary: st) (simp_all add: wsInv_wsStep)

lemma wsInv_wsRun: "wsInv (wsRun evs)"
  unfolding wsRun_def by (rule wsInv_fold) (simp add: wsInv_def wsInit_def)

lemma set_fold_setAdd: "set (fold setAdd xs acc) = set xs \<union> set acc"
  by (induction xs arbitrary: acc) (auto simp: set_setAdd)

lemma set_fold_subs:
  "set (fold (\<lambda>p acc. fold setAdd (uc_subscriptions (snd p)) acc) m acc) =
     (\<Union>p\<in>set m. set (uc_subscriptions (snd p))) \<union> set acc"
  by (induction m arbitrary: acc) (auto simp: set_fold_setAdd)

lemma set_subscribedSymbols:
  "set (subscribedSymbols st) = (\<Union>p\<in>set (connectedUsers st). set (uc_subscriptions (snd p)))"
  by (simp add: subscribedSymbols_def set_fold_subs)

lemma no_rooms_no_symbols:
  assumes "rooms (wsRun evs) = []"
  shows "subscribedSymbols (wsRun evs) = []"
proof -
  have "wsInv (wsRun evs)" by (rule wsInv_wsRun)
  then have "\<forall>p\<in>set (connectedUsers (wsRun evs)). uc_subscriptions (snd p) = []"
    using assms unfolding wsInv_def supported_def
    by (metis empty_iff empty_set last_in_set)
  then have "set (subscribedSymbols (wsRun evs)) = {}"
    by (simp add: set_subscribedSymbols)
  then show ?thesis by simp
qed


section \<open>Claims about the periodic broadcast\<close>

definition ex_anon :: ws_socket where
  "ex_anon = \<lparr>sock_id = 1, sock_userId = None\<rparr>"

definition ex_auth :: ws_socket where
  "ex_auth = \<lparr>sock_id = 2, sock_userId = Some 7\<rparr>"

lemma toUpperCase_examples:
  "toUpperCase ''tcs'' = ''TCS''" "toUpperCase ''infy'' = ''INFY''"
  by code_simp+

lemmas ws_defs = toUpperCase_examples wsRun_def wsInit_def onConnection_def subscribeOne_def unsubscribeOne_def
  handleMarketDataUnsubscription_def handleDisconnection_def marketRoom_def setAdd_def
  setDelete_def mapDelete_def subscribedSymbols_def marketDataTick_def
  broadcastMarketDataUpdate_def ex_anon_def ex_auth_def

text \<open>
  C9, as stated, fails in its first part: after a connection without a user id has
  subscribed to \<open>tcs\<close>, the room \<open>market_TCS\<close> is joined, yet the union the tick
  computes is empty, and the tick fetches and emits nothing.
\<close>

theorem C9_counterexample:
  "rooms (wsRun [Connect ex_anon, Subscribe ex_anon [''tcs'']]) = [(''market_TCS'', ex_anon)] \<and>
   subscribedSymbols (wsRun [Connect ex_anon, Subscribe ex_anon [''tcs'']]) = [] \<and>
   marketDataTick (ex_md_env True (\<lambda>s. Some (ex_q s)))
       (wsRun [Connect ex_anon, Subscribe ex_anon [''tcs'']]) ex_empty_state
     = ([], ex_empty_state)"
  by (simp add: ws_defs)

lemma tick_emissions:
  assumes "e \<in> set (fst (marketDataTick env st mst))"
  shows "\<exists>symb\<in>set (subscribedSymbols st). \<exists>m.
           fst (getBatchMarketData env (subscribedSymbols st) mst) = Inr m \<and>
           e = EmitToRoom (''market_'' @ toUpperCase symb) (toUpperCase symb)
                 (m (toUpperCase symb))"
  using assms
  by (auto simp: marketDataTick_def broadcastMarketDataUpdate_def marketRoom_def Let_def
      split: if_splits prod.splits sum.splits)

lemma tick_all_emissions:
  assumes "fst (getBatchMarketData env (subscribedSymbols st) mst) = Inr m"
  shows "fst (marketDataTick env st mst) =
           map (\<lambda>symb. EmitToRoom (''market_'' @ toUpperCase symb) (toUpperCase symb)
                          (m (toUpperCase symb))) (subscribedSymbols st)"
  using assms
  by (auto simp: marketDataTick_def broadcastMarketDataUpdate_def marketRoom_def Let_def
      split: if_splits prod.splits sum.splits)

lemma fold_subscribeOne_anon:
  "sock_userId sock = None \<Longrightarrow>
   connectedUsers (fold (subscribeOne sock) symbols st) = connectedUsers st"
  by (induction symbols arbitrary: st) (simp_all add: subscribeOne_def Let_def)

text \<open>
  C9 (amended). Each periodic broadcast tick computes the union of the symbol
  subscriptions recorded for the connected users that have a user id; a subscription
  of a connection without a user id joins the room and is not recorded. Whenever that
  union is empty the tick issues no upstream fetch call and emits nothing, and this
  is so whenever no symbol room is joined. Whenever the union is non-empty and the
  batch fetch returns, the tick emits once for each symbol of the union, in order:
  the entry of the batch under that symbol, and nothing else, to that symbol's own
  room.
\<close>

theorem C9_broadcast_tick:
  shows "set (subscribedSymbols st)
           = (\<Union>p\<in>set (connectedUsers st). set (uc_subscriptions (snd p))) \<and>
         (sock_userId sock = None \<longrightarrow>
            subscribedSymbols (fst (handleMarketDataSubscription env sock symbols (st, mst)))
              = subscribedSymbols st) \<and>
         (subscribedSymbols st = [] \<longrightarrow> marketDataTick env st mst = ([], mst)) \<and>
         (rooms (wsRun evs) = [] \<longrightarrow>
            marketDataTick env (wsRun evs) mst = ([], mst) \<and>
            upstreamCalls (snd (marketDataTick env (wsRun evs) mst)) = upstreamCalls mst) \<and>
         (\<forall>e\<in>set (fst (marketDataTick env st mst)).
            \<exists>symb\<in>set (subscribedSymbols st). \<exists>m.
              fst (getBatchMarketData env (subscribedSymbols st) mst) = Inr m \<and>
              e = EmitToRoom (''market_'' @ toUpperCase symb) (toUpperCase symb)
                    (m (toUpperCase symb))) \<and>
         (\<forall>m. fst (getBatchMarketData env (subscribedSymbols st) mst) = Inr m \<longrightarrow>
            fst (marketDataTick env st mst) =
              map (\<lambda>symb. EmitToRoom (''market_'' @ toUpperCase symb) (toUpperCase symb)
                             (m (toUpperCase symb))) (subscribedSymbols st))"
proof -
  have a: "sock_userId sock = None \<longrightarrow>
            subscribedSymbols (fst (handleMarketDataSubscription env sock symbols (st, mst)))
              = subscribedSymbols st"
    by (simp add: handleMarketDataSubscription_def subscribedSymbols_def fold_subscribeOne_anon)
  have b: "subscribedSymbols st = [] \<longrightarrow> marketDataTick env st mst = ([], mst)"
    by (simp add: marketDataTick_def)
  have c: "rooms (wsRun evs) = [] \<longrightarrow>
            marketDataTick env (wsRun evs) mst = ([], mst) \<and>
            upstreamCalls (snd (marketDataTick env (wsRun evs) mst)) = upstreamCalls mst"
    using no_rooms_no_symbols[of evs] by (simp add: marketDataTick_def)
  have d: "\<forall>e\<in>set (fst (marketDataTick env st mst)).
            \<exists>symb\<in>set (subscribedSymbols st). \<exists>m.
              fst (getBatchMarketData env (subscribedSymbols st) mst) = Inr m \<and>
              e = EmitToRoom (''market_'' @ toUpperCase symb) (toUpperCase symb)
                    (m (toUpperCase symb))"
    using tick_emissions by blast
  have e: "\<forall>m. fst (getBatchMarketData env (subscribedSymbols st) mst) = Inr m \<longrightarrow>
            fst (marketDataTick env st mst) =
              map (\<lambda>symb. EmitToRoom (''market_'' @ toUpperCase symb) (toUpperCase symb)
                             (m (toUpperCase symb))) (subscribedSymbols st)"
    using tick_all_emissions by blast
  show ?thesis
    using a b c d e set_subscribedSymbols by blast
qed

theorem C9_broadcast_tick_witness:
  "subscribedSymbols (wsRun [Connect ex_auth, Subscribe ex_auth [''tcs'', ''infy'']])
     = [''TCS'', ''INFY''] \<and>
   marketDataTick (ex_md_env True (\<lambda>s. Some (ex_q s))) (wsRun [Connect ex_auth]) ex_empty_state
     = ([], ex_empty_state) \<and>
   fst (marketDataTick (ex_md_env True (\<lambda>s. Some (ex_q s)))
        (wsRun [Connect ex_auth, Subscribe ex_auth [''tcs'', ''infy'']]) ex_empty_state)
     = [EmitToRoom ''market_TCS'' ''TCS'' (Some (Success (ex_q ''TCS''))),
        EmitToRoom ''market_INFY'' ''INFY'' (Some (Success (ex_q ''INFY'')))]"
proof -
  let ?env = "ex_md_env True (\<lambda>s. Some (ex_q s))"
  have r: "rooms (wsRun [Connect ex_auth]) = []"
    by (simp add: ws_defs)
  have s: "subscribedSymbols (wsRun [Connect ex_auth, Subscribe ex_auth [''tcs'', ''infy'']])
     = [''TCS'', ''INFY'']"
    by (simp add: ws_defs)
  let ?st = "wsRun [Connect ex_auth, Subscribe ex_auth [''tcs'', ''infy'']]"
  let ?m = "[''TCS'' \<mapsto> Success (ex_q ''TCS''), ''INFY'' \<mapsto> Success (ex_q ''INFY'')]"
  have b: "fst (getBatchMarketData ?env (subscribedSymbols ?st) ex_empty_state) = Inr ?m"
    unfolding s by (simp add: md_defs getBatchMarketData_def)
  have u: "toUpperCase ''TCS'' = ''TCS''" "toUpperCase ''INFY'' = ''INFY''"
    by code_simp+
  have "fst (marketDataTick ?env ?st ex_empty_state) =
          map (\<lambda>symb. EmitToRoom (''market_'' @ toUpperCase symb) (toUpperCase symb)
                         (?m (toUpperCase symb))) (subscribedSymbols ?st)"
    using C9_broadcast_tick[where st = ?st and env = ?env and mst = ex_empty_state] b
    by blast
  then have e: "fst (marketDataTick ?env ?st ex_empty_state)
     = [EmitToRoom ''market_TCS'' ''TCS'' (Some (Success (ex_q ''TCS''))),
        EmitToRoom ''market_INFY'' ''INFY'' (Some (Success (ex_q ''INFY'')))]"
    unfolding s by (simp add: u)
  show ?thesis
    using C9_broadcast_tick[where evs = "[Connect ex_auth]" and env = ?env
        and mst = ex_empty_state] r s e
    by simp
qed

section \<open>The scheduler and overlapping cycles\<close>

text \<open>
  \<open>startPeriodicUpdates\<close> calls \<open>checkAlerts\<close> from a \<open>setInterval\<close> callback.
  A call runs until its next \<open>await\<close> and other callbacks run in between, so calls
  of \<open>checkAlerts\<close> interleave at their awaits. A cycle in flight holds what the
  call holds in its local variables: \<open>activeAlerts\<close> (the result of \<open>Alert.find\<close>),
  \<open>marketDataMap\<close> once \<open>getMultiple\<close> has resolved, the alerts the \<open>for\<close> loop has
  not reached, and \<open>triggeredCount\<close>.
\<close>

record cycle =
  c_env :: notify_env
  c_now :: int
  c_active :: "alert list"
  c_map :: "(string \<Rightarrow> market_data option) option"
  c_pending :: "alert list"
  c_triggered :: nat
  c_done :: bool

record engine =
  e_world :: world
  e_cycles :: "cycle list"

text \<open>
  The events: a tick of the interval, which calls \<open>checkAlerts\<close> and reads the
  eligible alerts; the market data of a cycle arriving; and one round of the \<open>for\<close>
  loop of a cycle, on the alert object the cycle read at its start.
\<close>

datatype sched_event =
    Tick notify_env int
  | MarketDataResolved nat "market_data list"
  | LoopStep nat

text \<open>
  The callback has no guard: a tick starts a cycle whatever the other cycles do. A
  cycle with no eligible alert returns at once.
\<close>

definition startCycle :: "notify_env \<Rightarrow> int \<Rightarrow> world \<Rightarrow> cycle" where
  "startCycle env now w =
     (let activeAlerts = filter (eligible now) (alerts w) in
      \<lparr>c_env = env, c_now = now, c_active = activeAlerts, c_map = None,
       c_pending = activeAlerts, c_triggered = 0, c_done = (activeAlerts = [])\<rparr>)"

definition loopStep :: "cycle \<Rightarrow> world \<Rightarrow> cycle \<times> world" where
  "loopStep c w =
     (case (c_map c, c_pending c) of
        (Some m, a # rest) \<Rightarrow>
          if c_done c then (c, w)
          else
            let wn = checkAlerts_body (c_env c) (c_now c) m a (w, c_triggered c)
            in (c\<lparr>c_pending := rest, c_triggered := snd wn, c_done := (rest = [])\<rparr>, fst wn)
      | _ \<Rightarrow> (c, w))"

fun schedStep :: "sched_event \<Rightarrow> engine \<Rightarrow> engine" where
  "schedStep (Tick env now) e =
     e\<lparr>e_cycles := e_cycles e @ [startCycle env now (e_world e)]\<rparr>"
| "schedStep (MarketDataResolved k coll) e =
     (if k < length (e_cycles e) \<and> c_map (e_cycles e ! k) = None \<and> \<not> c_done (e_cycles e ! k)
      then e\<lparr>e_cycles := (e_cycles e)
               [k := (e_cycles e ! k)\<lparr>c_map :=
                        Some (checkAlerts_marketDataMap coll (c_active (e_cycles e ! k)))\<rparr>]\<rparr>
      else e)"
| "schedStep (LoopStep k) e =
     (if k < length (e_cycles e)
      then let cw = loopStep (e_cycles e ! k) (e_world e)
           in e\<lparr>e_world := snd cw, e_cycles := (e_cycles e)[k := fst cw]\<rparr>
      else e)"

definition exec :: "sched_event list \<Rightarrow> engine \<Rightarrow> engine" where
  "exec evs e = fold schedStep evs e"

definition running :: "engine \<Rightarrow> cycle list" where
  "running e = filter (\<lambda>c. \<not> c_done c) (e_cycles e)"

text \<open>
  A cycle that runs alone from its tick to its end, and a sequence of such cycles.
\<close>

definition cycleEvents :: "notify_env \<Rightarrow> int \<Rightarrow> market_data list \<Rightarrow> engine \<Rightarrow> sched_event list" where
  "cycleEvents env now coll e =
     Tick env now # MarketDataResolved (length (e_cycles e)) coll #
     replicate (length (filter (eligible now) (alerts (e_world e)))) (LoopStep (length (e_cycles e)))"

fun runToCompletion :: "notify_env \<times> int \<times> market_data list \<Rightarrow> engine \<Rightarrow> engine" where
  "runToCompletion (env, now, coll) e = exec (cycleEvents env now coll e) e"

definition sequential :: "(notify_env \<times> int \<times> market_data list) list \<Rightarrow> engine \<Rightarrow> engine" where
  "sequential cs e = fold runToCompletion cs e"

definition ex_engine :: engine where
  "ex_engine = \<lparr>e_world = ex_world (ex_alert ''price'' ''above'' 100), e_cycles = []\<rparr>"

lemmas sched_defs = exec_def running_def startCycle_def loopStep_def ex_engine_def
  cycleEvents_def sequential_def

section \<open>Claims about overlapping cycles\<close>

text \<open>
  C3, as stated, fails: a second tick that fires while the first cycle is still
  running starts a second cycle, and when both have read the alert before either
  saves it, both trigger it and both dispatch a notification.
\<close>

theorem C3_counterexample:
  "length (running (exec [Tick (ex_env True) 0] ex_engine)) = 1 \<and>
   length (running (exec [Tick (ex_env True) 0, Tick (ex_env True) 60000] ex_engine)) = 2 \<and>
   filter isDispatch (eventsFor 1 (e_world (exec
     [Tick (ex_env True) 0, Tick (ex_env True) 60000,
      MarketDataResolved 0 [ex_quote 101 0 0], MarketDataResolved 1 [ex_quote 101 0 0],
      LoopStep 0, LoopStep 1] ex_engine)))
     = [NotificationDispatched 1, NotificationDispatched 1]"
  by (simp add: sched_defs ex_defs eventsFor_def Let_def)


text \<open>A cycle that runs alone does what \<open>checkAlerts\<close> does.\<close>

lemma startCycle_fields:
  "c_env (startCycle env now w) = env" "c_now (startCycle env now w) = now"
  "c_active (startCycle env now w) = filter (eligible now) (alerts w)"
  "c_pending (startCycle env now w) = filter (eligible now) (alerts w)"
  "c_map (startCycle env now w) = None" "c_triggered (startCycle env now w) = 0"
  "c_done (startCycle env now w) \<longleftrightarrow> filter (eligible now) (alerts w) = []"
  by (simp_all add: startCycle_def Let_def)

lemma exec_Cons: "exec (ev # evs) e = exec evs (schedStep ev e)"
  by (simp add: exec_def)

lemma exec_Nil: "exec [] e = e"
  by (simp add: exec_def)

lemma loop_steps:
  assumes "e_cycles e = old @ [c]" "c_map c = Some m" "c_pending c = ps"
    "c_done c \<longleftrightarrow> ps = []"
  shows "e_world (exec (replicate (length ps) (LoopStep (length old))) e) =
           fst (fold (checkAlerts_body (c_env c) (c_now c) m) ps (e_world e, c_triggered c)) \<and>
         e_cycles (exec (replicate (length ps) (LoopStep (length old))) e) =
           old @ [c\<lparr>c_pending := [],
                    c_triggered := snd (fold (checkAlerts_body (c_env c) (c_now c) m) ps
                                          (e_world e, c_triggered c)),
                    c_done := True\<rparr>]"
  using assms
proof (induction ps arbitrary: e c)
  case Nil
  then show ?case by (simp add: exec_Nil)
next
  case (Cons a rest)
  let ?wn = "checkAlerts_body (c_env c) (c_now c) m a (e_world e, c_triggered c)"
  let ?c' = "c\<lparr>c_pending := rest, c_triggered := snd ?wn, c_done := (rest = [])\<rparr>"
  let ?e' = "schedStep (LoopStep (length old)) e"
  have nd: "\<not> c_done c" using Cons.prems(3,4) by simp
  have ls: "loopStep c (e_world e) = (?c', fst ?wn)"
    using Cons.prems(2,3) nd by (simp add: loopStep_def Let_def)
  have cy: "e_cycles ?e' = old @ [?c']" and w: "e_world ?e' = fst ?wn"
    using Cons.prems(1) ls by (simp_all add: Let_def)
  have ih: "e_world (exec (replicate (length rest) (LoopStep (length old))) ?e') =
           fst (fold (checkAlerts_body (c_env ?c') (c_now ?c') m) rest (e_world ?e', c_triggered ?c')) \<and>
         e_cycles (exec (replicate (length rest) (LoopStep (length old))) ?e') =
           old @ [?c'\<lparr>c_pending := [],
                    c_triggered := snd (fold (checkAlerts_body (c_env ?c') (c_now ?c') m) rest
                                          (e_world ?e', c_triggered ?c')),
                    c_done := True\<rparr>]"
    using Cons.prems(2) by (intro Cons.IH[OF cy]) simp_all
  have wn: "(fst ?wn, snd ?wn) = ?wn" by simp
  show ?case
    using ih unfolding w by (simp add: exec_Cons wn del: prod.collapse)
qed

lemma runToCompletion_checkAlerts:
  "e_world (runToCompletion (env, now, coll) e) = fst (checkAlerts env now coll (e_world e)) \<and>
   running (runToCompletion (env, now, coll) e) = running e"
proof -
  let ?acts = "filter (eligible now) (alerts (e_world e))"
  let ?k = "length (e_cycles e)"
  let ?c0 = "startCycle env now (e_world e)"
  let ?e1 = "schedStep (Tick env now) e"
  let ?e2 = "schedStep (MarketDataResolved ?k coll) ?e1"
  have e1: "e_cycles ?e1 = e_cycles e @ [?c0]" "e_world ?e1 = e_world e" by simp_all
  have ex: "runToCompletion (env, now, coll) e = exec (replicate (length ?acts) (LoopStep ?k)) ?e2"
    by (simp add: cycleEvents_def exec_Cons)
  show ?thesis
  proof (cases "?acts = []")
    case True
    then have "c_done ?c0" by (simp add: startCycle_fields)
    then have "?e2 = ?e1" by (simp add: nth_append)
    then have "runToCompletion (env, now, coll) e = ?e1"
      using ex True by (simp add: exec_Nil)
    then show ?thesis
      using True \<open>c_done ?c0\<close> by (simp add: checkAlerts_def running_def)
  next
    case False
    let ?m = "checkAlerts_marketDataMap coll ?acts"
    let ?c1 = "?c0\<lparr>c_map := Some ?m\<rparr>"
    have c0: "c_map ?c0 = None" "\<not> c_done ?c0" "c_active ?c0 = ?acts"
      using False by (simp_all add: startCycle_fields)
    have e2: "e_cycles ?e2 = e_cycles e @ [?c1]" "e_world ?e2 = e_world e"
      using c0 by (simp_all add: nth_append)
    have p: "c_map ?c1 = Some ?m" "c_pending ?c1 = ?acts" "c_done ?c1 \<longleftrightarrow> ?acts = []"
      "c_env ?c1 = env" "c_now ?c1 = now" "c_triggered ?c1 = 0"
      by (simp_all add: startCycle_fields)
    from loop_steps[OF e2(1) p(1) p(2) p(3)]
    have w: "e_world (runToCompletion (env, now, coll) e) =
               fst (fold (checkAlerts_body env now ?m) ?acts (e_world e, 0))"
      and cy: "e_cycles (runToCompletion (env, now, coll) e) =
               e_cycles e @ [?c1\<lparr>c_pending := [],
                  c_triggered := snd (fold (checkAlerts_body env now ?m) ?acts (e_world e, 0)),
                  c_done := True\<rparr>]"
      unfolding ex p(4,5,6) e2(2) by simp_all
    have "running (runToCompletion (env, now, coll) e) = running e"
      unfolding running_def cy by simp
    then show ?thesis
      using w False by (simp add: checkAlerts_def Let_def)
  qed
qed

lemma sequential_run:
  "e_world (sequential cs e) =
     run (map (\<lambda>c. RunCycle (fst c) (fst (snd c)) (snd (snd c))) cs) (e_world e) \<and>
   running (sequential cs e) = running e"
proof (induction cs arbitrary: e)
  case Nil
  then show ?case by (simp add: sequential_def run_def)
next
  case (Cons c cs)
  obtain env now coll where c: "c = (env, now, coll)" by (cases c) auto
  have s: "sequential (c # cs) e = sequential cs (runToCompletion (env, now, coll) e)"
    by (simp add: sequential_def c)
  show ?case
    unfolding s using Cons.IH[of "runToCompletion (env, now, coll) e"]
      runToCompletion_checkAlerts[of env now coll e]
    by (simp add: run_def c)
qed

lemma dispatch_notifyEvents:
  "filter isDispatch (notifyEvents env a) = [NotificationDispatched (aid a)]"
  by (simp add: notifyEvents_def split: option.splits)

text \<open>
  C3 (amended). Every tick starts an evaluation cycle, whether or not an earlier one
  is still running: no tick is skipped or queued. When the cycles do not overlap,
  each running to its end before the next tick, an alert that triggers is dispatched
  exactly once, however many cycles follow, and no cycle is left running.
\<close>

theorem C3_sequential_single_dispatch:
  assumes "distinct (map aid (alerts (e_world e)))" and "a \<in> set (alerts (e_world e))"
    and "eligible now a"
    and "checkAlerts_marketDataMap coll (filter (eligible now) (alerts (e_world e))) (symbol a)
           = Some d"
    and "checkAlerts_currentValue (alertType a) d = Some v"
    and "checkAlerts_shouldTrigger (condition a) v (targetValue a)"
  shows "length (running (schedStep (Tick env now) e)) = length (running e) + 1 \<and>
         running (sequential ((env, now, coll) # cs) e) = running e \<and>
         filter isDispatch (eventsFor (aid a) (e_world (sequential ((env, now, coll) # cs) e)))
           = filter isDispatch (eventsFor (aid a) (e_world e)) @ [NotificationDispatched (aid a)]"
proof -
  let ?w = "e_world e"
  let ?w' = "fst (checkAlerts env now coll ?w)"
  let ?ops = "map (\<lambda>c. RunCycle (fst c) (fst (snd c)) (snd (snd c))) cs"
  have "a \<in> set (filter (eligible now) (alerts ?w))"
    using assms(2,3) by simp
  then have ne: "filter (eligible now) (alerts ?w) \<noteq> []"
    by (metis empty_iff list.set(1))
  then have t: "length (running (schedStep (Tick env now) e)) = length (running e) + 1"
    by (simp add: running_def startCycle_fields)
  have sw: "e_world (sequential ((env, now, coll) # cs) e) = run ?ops ?w'"
    using sequential_run[of "(env, now, coll) # cs" e] by (simp add: run_def)
  have ev: "eventsFor (aid a) ?w' =
        eventsFor (aid a) ?w @ Saved (triggeredDoc now v a) # notifyEvents env (triggeredDoc now v a)"
    using checkAlerts_events_evaluated[OF assms(1-5)] assms(6) by simp
  have doc: "alertById (aid a) ?w' = Some (cycleOutcome env now v a)"
    using assms(1-5) by (rule checkAlerts_evaluated)
  have dw: "distinct (map aid (alerts ?w'))"
    using assms(1) by (simp add: map_aid_checkAlerts)
  have tr: "isTriggered (cycleOutcome env now v a)"
    using assms(6) by (simp add: cycleOutcome_def triggeredDoc_def)
  have nu: "\<forall>op\<in>set ?ops. \<not> isUpdate op" by auto
  from run_triggered[OF dw doc tr nu]
  have later: "eventsFor (aid a) (run ?ops ?w') = eventsFor (aid a) ?w'" by blast
  have "filter isDispatch (eventsFor (aid a) (run ?ops ?w'))
          = filter isDispatch (eventsFor (aid a) ?w) @ [NotificationDispatched (aid a)]"
    unfolding later ev by (simp add: dispatch_notifyEvents)
  then show ?thesis
    using t sw sequential_run[of "(env, now, coll) # cs" e] by simp
qed

theorem C3_sequential_single_dispatch_witness:
  "length (running (schedStep (Tick (ex_env True) 0) ex_engine)) = 1 \<and>
   running (sequential [(ex_env True, 0, [ex_quote 101 0 0]),
                        (ex_env True, 60000, [ex_quote 102 0 0])] ex_engine) = [] \<and>
   filter isDispatch (eventsFor 1 (e_world
     (sequential [(ex_env True, 0, [ex_quote 101 0 0]),
                  (ex_env True, 60000, [ex_quote 102 0 0])] ex_engine)))
     = [NotificationDispatched 1]"
proof -
  let ?a = "ex_alert ''price'' ''above'' 100"
  let ?q = "ex_quote 101 0 0"
  have m: "checkAlerts_marketDataMap [?q]
        (filter (eligible 0) (alerts (e_world ex_engine))) (symbol ?a) = Some ?q"
    by (simp add: ex_defs ex_engine_def)
  have d: "distinct (map aid (alerts (e_world ex_engine)))"
    by (simp add: ex_defs ex_engine_def)
  have i: "?a \<in> set (alerts (e_world ex_engine))"
    by (simp add: ex_defs ex_engine_def)
  have e: "eligible 0 ?a"
    by (simp add: ex_defs)
  have v: "checkAlerts_currentValue (alertType ?a) ?q = Some 101"
    by (simp add: ex_defs)
  have t: "checkAlerts_shouldTrigger (condition ?a) 101 (targetValue ?a)"
    by (simp add: ex_defs)
  have a1: "aid ?a = 1"
    by (simp add: ex_alert_def)
  have r: "running ex_engine = []" "eventsFor 1 (e_world ex_engine) = []"
    by (simp_all add: running_def ex_engine_def eventsFor_def ex_world_def)
  show ?thesis
    using C3_sequential_single_dispatch[OF d i e m v t, where env = "ex_env True"
        and cs = "[(ex_env True, 60000, [ex_quote 102 0 0])]"]
    unfolding a1 r by simp
qed

section \<open>Triggered alerts under interleaving\<close>












section \<open>Claims about the life of a triggered alert\<close>











lemma mail_notifyEvents: "length (filter isMailAttempt (notifyEvents env a)) \<le> 1"
  by (simp add: notifyEvents_def split: option.splits)













end
